theory Spec2Isabelle
  imports Main
begin

section \<open>Values of the validated input\<close>

text \<open>
  The validator works on plain JavaScript data: the values \<open>JSON.parse\<close> gives, and
  \<open>undefined\<close>. A value is \<open>undefined\<close>, \<open>null\<close>, a boolean, a number, a string, an
  array or an object. Numbers are the integers (no fractions, no NaN). Arrays are dense
  and objects are ordinary objects whose prototype is \<open>Object.prototype\<close>; all their
  properties are own, enumerable data properties. An object is the list of its
  properties in the order \<open>for ... in\<close> visits them: the keys that are array indices
  first, in ascending order, then the other keys in the order of their creation
  (\<open>wf_js\<close> below). A key \<open>__proto__\<close> in that list is an own property, as
  \<open>JSON.parse\<close> creates it.
\<close>

datatype jsval =
    JUndef
  | JNull
  | JBool bool
  | JNum int
  | JStr string
  | JArr "jsval list"
  | JObj "(string \<times> jsval) list"

datatype error =
    TypeError
  | UsageError string
  | ProtocolViolation
  | Unmodelled

text \<open>JavaScript truthiness, as tested by \<open>if (x)\<close>, \<open>x || y\<close> and \<open>!x\<close>.\<close>

fun truthy :: "jsval \<Rightarrow> bool" where
  "truthy JUndef = False"
| "truthy JNull = False"
| "truthy (JBool b) = b"
| "truthy (JNum n) = (n \<noteq> 0)"
| "truthy (JStr s) = (s \<noteq> [])"
| "truthy (JArr xs) = True"
| "truthy (JObj kvs) = True"

subsection \<open>Decimal rendering of an index\<close>

definition digit_char :: "nat \<Rightarrow> char" where
  "digit_char d = ''0123456789'' ! d"

fun string_of_nat :: "nat \<Rightarrow> string" where
  "string_of_nat n =
     (if n < 10 then [digit_char n]
      else string_of_nat (n div 10) @ [digit_char (n mod 10)])"

declare string_of_nat.simps [simp del]

subsection \<open>Own properties\<close>

text \<open>
  \<open>array_index n key\<close> is the index below \<open>n\<close> whose canonical decimal form is \<open>key\<close>:
  the own index properties of an array or a string of length \<open>n\<close>.
\<close>

definition array_index :: "nat \<Rightarrow> string \<Rightarrow> nat option" where
  "array_index n key = List.find (\<lambda>i. string_of_nat i = key) [0..<n]"

text \<open>
  \<open>get_own v k\<close> is \<open>Some (v[k])\<close> when \<open>hasOwnProperty.call(v, k)\<close> holds and \<open>None\<close>
  otherwise, for a \<open>v\<close> that is neither \<open>null\<close> nor \<open>undefined\<close>.
\<close>

fun get_own :: "jsval \<Rightarrow> string \<Rightarrow> jsval option" where
  "get_own (JObj kvs) k = map_of kvs k"
| "get_own (JArr xs) k =
     (if k = ''length'' then Some (JNum (int (length xs)))
      else map_option (\<lambda>i. xs ! i) (array_index (length xs) k))"
| "get_own (JStr s) k =
     (if k = ''length'' then Some (JNum (int (length s)))
      else map_option (\<lambda>i. JStr [s ! i]) (array_index (length s) k))"
| "get_own v k = None"

text \<open>
  \<open>Object.prototype.hasOwnProperty.call(v, k)\<close> and the read \<open>v[k]\<close> of a property
  that is own or absent; both throw a TypeError on \<open>null\<close> and \<open>undefined\<close>.
\<close>

fun has_own :: "jsval \<Rightarrow> string \<Rightarrow> error + bool" where
  "has_own JUndef k = Inl TypeError"
| "has_own JNull k = Inl TypeError"
| "has_own v k = Inr (get_own v k \<noteq> None)"

definition get_prop :: "jsval \<Rightarrow> string \<Rightarrow> error + jsval" where
  "get_prop v k =
     (if v = JUndef \<or> v = JNull then Inl TypeError
      else (case get_own v k of Some w \<Rightarrow> Inr w | None \<Rightarrow> Inr JUndef))"

text \<open>
  The method call \<open>v.hasOwnProperty(k)\<close> on the value itself. An object with an own
  property \<open>hasOwnProperty\<close> answers with that property, which is data and cannot be
  called: a TypeError. Every other value finds the method of \<open>Object.prototype\<close>.
\<close>

fun call_hasOwnProperty :: "jsval \<Rightarrow> string \<Rightarrow> error + bool" where
  "call_hasOwnProperty (JObj kvs) k =
     (if map_of kvs ''hasOwnProperty'' \<noteq> None then Inl TypeError
      else Inr (map_of kvs k \<noteq> None))"
| "call_hasOwnProperty v k = has_own v k"

subsection \<open>The order of the properties of an object\<close>

text \<open>
  A key is an array index when it is the canonical decimal form of a number below
  \<open>2^32 - 1\<close>. \<open>nat_of_string\<close> reads a decimal string back.
\<close>

definition digit_val :: "char \<Rightarrow> nat" where
  "digit_val c = of_char c - 48"

definition nat_of_string :: "string \<Rightarrow> nat" where
  "nat_of_string s = foldl (\<lambda>a c. 10 * a + digit_val c) 0 s"

definition is_digit :: "char \<Rightarrow> bool" where
  "is_digit c = (let n = of_char c :: nat in 48 \<le> n \<and> n \<le> 57)"

definition index_of_key :: "string \<Rightarrow> nat option" where
  "index_of_key k =
     (if k \<noteq> [] \<and> list_all is_digit k \<and> (k = ''0'' \<or> hd k \<noteq> CHR ''0'')
         \<and> nat_of_string k < 4294967295
      then Some (nat_of_string k) else None)"

text \<open>\<open>goes_before n k'\<close>: the existing key \<open>k'\<close> is an array index below \<open>n\<close>.\<close>

definition goes_before :: "nat \<Rightarrow> string \<Rightarrow> bool" where
  "goes_before n k' = (case index_of_key k' of Some n' \<Rightarrow> n' < n | None \<Rightarrow> False)"

text \<open>A new property takes its place: an array index after the smaller indices, any
  other key at the end.\<close>

definition insert_prop :: "(string \<times> 'a) list \<Rightarrow> string \<Rightarrow> 'a \<Rightarrow> (string \<times> 'a) list" where
  "insert_prop kvs k v =
     (case index_of_key k of
        None \<Rightarrow> kvs @ [(k, v)]
      | Some n \<Rightarrow>
          takeWhile (\<lambda>kv. goes_before n (fst kv)) kvs @ (k, v)
            # dropWhile (\<lambda>kv. goes_before n (fst kv)) kvs)"

text \<open>
  Assignment \<open>o[k] = v\<close> on an object. An existing property keeps its place. The key
  \<open>__proto__\<close>, when the object has no such property of its own, reaches the setter of
  \<open>Object.prototype\<close>: no property is created. (The setter makes an object or \<open>null\<close>
  the prototype of \<open>o\<close>; where the source could observe that, the model says so at the
  assignment, see \<open>flat_set\<close>.)
\<close>

definition obj_set :: "(string \<times> 'a) list \<Rightarrow> string \<Rightarrow> 'a \<Rightarrow> (string \<times> 'a) list" where
  "obj_set kvs k v =
     (if k \<in> fst ` set kvs then map (\<lambda>kv. if fst kv = k then (k, v) else kv) kvs
      else if k = ''__proto__'' then kvs
      else insert_prop kvs k v)"

subsection \<open>String helpers\<close>

text \<open>\<open>s.split(d)\<close> for a one-character separator.\<close>

fun split_on :: "char \<Rightarrow> string \<Rightarrow> string list" where
  "split_on d [] = [[]]"
| "split_on d (c # cs) =
     (if c = d then [] # split_on d cs
      else (case split_on d cs of
              [] \<Rightarrow> [[c]]
            | w # ws \<Rightarrow> (c # w) # ws))"

text \<open>The character class \<open>\w\<close>.\<close>

definition is_word_char :: "char \<Rightarrow> bool" where
  "is_word_char c =
     (let n = of_char c :: nat in
        (48 \<le> n \<and> n \<le> 57) \<or> (65 \<le> n \<and> n \<le> 90) \<or> (97 \<le> n \<and> n \<le> 122) \<or> n = 95)"

text \<open>\<open>path.replace(/\[(\w+)\]/g, '.$1')\<close>: every \<open>[word]\<close> becomes \<open>.word\<close>.\<close>

function replace_brackets :: "string \<Rightarrow> string" where
  "replace_brackets [] = []"
| "replace_brackets (c # cs) =
     (if c = CHR ''[''
      then (let w = takeWhile is_word_char cs; r = dropWhile is_word_char cs in
              if w \<noteq> [] \<and> r \<noteq> [] \<and> hd r = CHR '']''
              then CHR ''.'' # w @ replace_brackets (tl r)
              else c # replace_brackets cs)
      else c # replace_brackets cs)"
  by pat_completeness auto
termination
proof (relation "measure length")
  show "wf (measure length)" by simp
next
  fix c :: char and cs w r
  assume "r = dropWhile is_word_char cs"
  then have "length r \<le> length cs" by (simp add: length_dropWhile_le)
  then show "(tl r, c # cs) \<in> measure length" by simp
qed simp_all

text \<open>\<open>s.replace(/^\./, '')\<close>.\<close>

fun strip_leading_dot :: "string \<Rightarrow> string" where
  "strip_leading_dot [] = []"
| "strip_leading_dot (c # cs) = (if c = CHR ''.'' then cs else c # cs)"

definition path_keys :: "string \<Rightarrow> string list" where
  "path_keys path = split_on (CHR ''.'') (strip_leading_dot (replace_brackets path))"

section \<open>PathResolver\<close>

subsection \<open>\<open>_objectPath\<close>\<close>

text \<open>
  The own enumerable properties of a value, in the order in which
  \<open>for (const attr in obj)\<close> visits them: those of an object, the indices of an array or
  of a string.
\<close>

fun own_props :: "jsval \<Rightarrow> (string \<times> jsval) list" where
  "own_props (JObj kvs) = kvs"
| "own_props (JArr xs) = map (\<lambda>i. (string_of_nat i, xs ! i)) [0..<length xs]"
| "own_props (JStr s) = map (\<lambda>i. (string_of_nat i, JStr [s ! i])) [0..<length s]"
| "own_props v = []"

text \<open>
  The copy \<open>_objectPath\<close> makes of the root: \<open>copy[attr] = obj[attr]\<close> for every own
  enumerable property. The copy is a fresh object, so the assignment of the key
  \<open>__proto__\<close> reaches the setter: the copy has no such property, and no path that
  starts with \<open>__proto__\<close> is found in it.
\<close>

definition own_copy :: "jsval \<Rightarrow> jsval" where
  "own_copy obj = JObj (filter (\<lambda>kv. fst kv \<noteq> ''__proto__'') (own_props obj))"

text \<open>\<open>typeof copy === 'object' && copy !== null\<close>.\<close>

fun is_object :: "jsval \<Rightarrow> bool" where
  "is_object (JObj kvs) = True"
| "is_object (JArr xs) = True"
| "is_object v = False"

text \<open>
  The loop over the keys: descend while the key is an own property, else \<open>undefined\<close>.
  The test \<open>Object.hasOwnProperty.call(copy, keys[i])\<close> and the read \<open>copy[keys[i]]\<close>
  are the operations that throw on \<open>null\<close> and \<open>undefined\<close>; the loop reaches them
  behind the test of \<open>typeof\<close> only.
\<close>

fun walk :: "jsval \<Rightarrow> string list \<Rightarrow> error + jsval" where
  "walk copy [] = Inr copy"
| "walk copy (k # ks) =
     (if is_object copy
      then (case has_own copy k of
              Inl e \<Rightarrow> Inl e
            | Inr False \<Rightarrow> Inr JUndef
            | Inr True \<Rightarrow>
                (case get_prop copy k of
                   Inl e \<Rightarrow> Inl e
                 | Inr v \<Rightarrow> walk v ks))
      else Inr JUndef)"

text \<open>
  \<open>_objectPath(obj, path)\<close>. The first test, \<open>hasOwnProperty.call(obj, path)\<close>, throws
  on \<open>null\<close> and \<open>undefined\<close>; the constructor's \<open>input || {}\<close> keeps both away from
  the validator's own calls.
\<close>

definition objectPath :: "jsval \<Rightarrow> string \<Rightarrow> error + jsval" where
  "objectPath obj path =
     (case has_own obj path of
        Inl e \<Rightarrow> Inl e
      | Inr True \<Rightarrow> get_prop obj path
      | Inr False \<Rightarrow> walk (own_copy obj) (path_keys path))"

subsection \<open>\<open>_flattenObject\<close>\<close>

text \<open>\<open>Object.getOwnPropertyNames(current).length\<close>; it throws on \<open>null\<close> and \<open>undefined\<close>.\<close>

fun own_names_count :: "jsval \<Rightarrow> error + nat" where
  "own_names_count JUndef = Inl TypeError"
| "own_names_count JNull = Inl TypeError"
| "own_names_count (JBool b) = Inr 0"
| "own_names_count (JNum n) = Inr 0"
| "own_names_count (JStr s) = Inr (length s + 1)"
| "own_names_count (JArr xs) = Inr (length xs + 1)"
| "own_names_count (JObj kvs) = Inr (length kvs)"

text \<open>
  The parameter \<open>property\<close> of \<open>recurse\<close> is \<open>undefined\<close> (\<open>None\<close>) at the root. It is
  falsy when it is \<open>undefined\<close> or the empty string, and as a key \<open>undefined\<close> reads
  \<open>"undefined"\<close>.
\<close>

fun prop_truthy :: "string option \<Rightarrow> bool" where
  "prop_truthy None = False"
| "prop_truthy (Some p) = (p \<noteq> [])"

fun prop_key :: "string option \<Rightarrow> string" where
  "prop_key None = ''undefined''"
| "prop_key (Some p) = p"

fun child_path :: "string option \<Rightarrow> string \<Rightarrow> string" where
  "child_path None p = p"
| "child_path (Some q) p = (if q \<noteq> [] then q @ ''.'' @ p else p)"

text \<open>
  The assignment \<open>flattened[property] = current\<close>. Under the key \<open>__proto__\<close> it
  reaches the setter of \<open>Object.prototype\<close>: a primitive is ignored, and the empty object
  or the empty array as the new prototype leave nothing for \<open>_parseRules\<close> to see. With
  \<open>null\<close> or an array that has elements the result gets a prototype that the loop of
  \<open>_parseRules\<close> can tell from \<open>Object.prototype\<close>; that is outside the model
  (\<open>Unmodelled\<close>).
\<close>

fun changes_prototype :: "jsval \<Rightarrow> bool" where
  "changes_prototype JNull = True"
| "changes_prototype (JArr (x # xs)) = True"
| "changes_prototype v = False"

definition flat_set ::
  "(string \<times> jsval) list \<Rightarrow> string \<Rightarrow> jsval \<Rightarrow> error + (string \<times> jsval) list" where
  "flat_set flattened property current =
     (if property = ''__proto__'' \<and> changes_prototype current then Inl Unmodelled
      else Inr (obj_set flattened property current))"

fun recurse :: "jsval \<Rightarrow> string option \<Rightarrow> (string \<times> jsval) list \<Rightarrow> error + (string \<times> jsval) list"
and recurse_props ::
  "(string \<times> jsval) list \<Rightarrow> string option \<Rightarrow> (string \<times> jsval) list \<Rightarrow> error + (string \<times> jsval) list"
where
  "recurse current property flattened =
     (if \<not> prop_truthy property \<and> own_names_count current = Inl TypeError then Inl TypeError
      else if \<not> prop_truthy property \<and> own_names_count current = Inr 0 then Inr flattened
      else (case current of
              JObj kvs \<Rightarrow>
                (if kvs = [] then flat_set flattened (prop_key property) (JObj [])
                 else recurse_props kvs property flattened)
            | _ \<Rightarrow> flat_set flattened (prop_key property) current))"
| "recurse_props [] property flattened = Inr flattened"
| "recurse_props ((p, v) # rest) property flattened =
     (case recurse v (Some (child_path property p)) flattened of
        Inl e \<Rightarrow> Inl e
      | Inr flattened' \<Rightarrow> recurse_props rest property flattened')"

declare recurse.simps [simp del]

definition flattenObject :: "jsval \<Rightarrow> error + (string \<times> jsval) list" where
  "flattenObject obj = (if truthy obj then recurse obj None [] else Inr [])"

subsection \<open>Well-formed values and what a path reaches\<close>

text \<open>
  The representation invariant of \<open>jsval\<close>: an object has each key once, and its keys
  stand in the order of enumeration, the array indices first and ascending.
\<close>

definition key_order :: "string list \<Rightarrow> bool" where
  "key_order ks =
     (sorted_wrt (<) (map (\<lambda>k. the (index_of_key k)) (takeWhile (\<lambda>k. index_of_key k \<noteq> None) ks)) \<and>
      list_all (\<lambda>k. index_of_key k = None) (dropWhile (\<lambda>k. index_of_key k \<noteq> None) ks))"

fun wf_js :: "jsval \<Rightarrow> bool"
and wf_js_props :: "(string \<times> jsval) list \<Rightarrow> bool"
and wf_js_elems :: "jsval list \<Rightarrow> bool" where
  "wf_js (JObj kvs) = (distinct (map fst kvs) \<and> key_order (map fst kvs) \<and> wf_js_props kvs)"
| "wf_js (JArr xs) = wf_js_elems xs"
| "wf_js v = True"
| "wf_js_props [] = True"
| "wf_js_props ((k, v) # rest) = (wf_js v \<and> wf_js_props rest)"
| "wf_js_elems [] = True"
| "wf_js_elems (x # xs) = (wf_js x \<and> wf_js_elems xs)"





fun follow :: "jsval \<Rightarrow> string list \<Rightarrow> jsval" where
  "follow v [] = v"
| "follow v (k # ks) =
     (if is_object v
      then (case get_own v k of
              Some v' \<Rightarrow> follow v' ks
            | None \<Rightarrow> JUndef)
      else JUndef)"




section \<open>Messages\<close>

text \<open>
  The class \<open>Messages\<close>: the localized table \<open>this.messages\<close> (here \<open>langMessages\<close>)
  and the custom messages, both plain objects from key to template.
\<close>

record Messages =
  lang :: string
  langMessages :: "(string \<times> jsval) list"
  customMessages :: "(string \<times> jsval) list"
  attributeNames :: "(string \<times> jsval) list"

text \<open>
  What the renderer reads of a \<open>Rule\<close> instance after \<open>validate\<close> has run on it: its
  name, the attribute it was run for, the custom message a resolving predicate may have
  left on it, and the answer of \<open>rule._getValueType()\<close>. The class \<open>Rule\<close> is not part of
  the sources; these are its fields as the validator and the renderer use them.
\<close>

record Rule =
  rule_name :: string
  rule_attribute :: string
  rule_customMessage :: jsval
  rule_valueType :: string

text \<open>\<open>typeof t === 'object'\<close>, which holds of \<open>null\<close> too.\<close>

fun typeof_object :: "jsval \<Rightarrow> bool" where
  "typeof_object (JObj kvs) = True"
| "typeof_object (JArr xs) = True"
| "typeof_object JNull = True"
| "typeof_object v = False"

text \<open>
  The loop of \<open>_getTemplate\<close> over the formats: the first format that is a key of
  the custom messages or, failing that, of the localized table, decides. The tests are
  the method calls \<open>customMessages.hasOwnProperty(format)\<close> and
  \<open>messages.hasOwnProperty(format)\<close>, which throw on a table that has a property
  \<open>hasOwnProperty\<close> of its own. \<open>plain_table\<close> says that a table has none.
\<close>

definition plain_table :: "(string \<times> jsval) list \<Rightarrow> bool" where
  "plain_table t = (map_of t ''hasOwnProperty'' = None)"

fun select_template ::
  "(string \<times> jsval) list \<Rightarrow> (string \<times> jsval) list \<Rightarrow> string list \<Rightarrow> jsval \<Rightarrow> error + jsval" where
  "select_template custom msgs [] template = Inr template"
| "select_template custom msgs (format # formats) template =
     (case call_hasOwnProperty (JObj custom) format of
        Inl e \<Rightarrow> Inl e
      | Inr True \<Rightarrow> get_prop (JObj custom) format
      | Inr False \<Rightarrow>
          (case call_hasOwnProperty (JObj msgs) format of
             Inl e \<Rightarrow> Inl e
           | Inr True \<Rightarrow> get_prop (JObj msgs) format
           | Inr False \<Rightarrow> select_template custom msgs formats template))"

definition formats_of :: "Rule \<Rightarrow> string list" where
  "formats_of rule = [rule_name rule @ ''.'' @ rule_attribute rule, rule_name rule]"

definition default_template :: "Messages \<Rightarrow> jsval" where
  "default_template m = (case map_of (langMessages m) ''def'' of Some t \<Rightarrow> t | None \<Rightarrow> JUndef)"

text \<open>
  The last step of \<open>_getTemplate\<close>: a template that is an object is indexed by the
  value type of the rule, \<open>template[rule._getValueType()]\<close>. The value types are names
  such as \<open>numeric\<close> and \<open>string\<close>, read here as properties of the template itself;
  the name of a property that every object inherits (\<open>toString\<close>) is no value type.
\<close>

definition by_value_type :: "Rule \<Rightarrow> jsval \<Rightarrow> error + jsval" where
  "by_value_type rule template =
     (if typeof_object template then get_prop template (rule_valueType rule)
      else Inr template)"

definition getTemplate :: "Messages \<Rightarrow> Rule \<Rightarrow> error + jsval" where
  "getTemplate m rule =
     (case select_template (customMessages m) (langMessages m) (formats_of rule) (default_template m) of
        Inl e \<Rightarrow> Inl e
      | Inr template \<Rightarrow> by_value_type rule template)"

text \<open>
  \<open>render\<close>. The substitution of the placeholders (\<open>Attributes.replacements\<close>, and
  \<open>_replacePlaceholders\<close> with \<open>rule.getParameters()\<close> and the attribute formatter)
  needs the classes \<open>Rule\<close> and \<open>Attributes\<close>, which are not part of the sources; it
  is the parameter \<open>fill\<close>, which may throw.
\<close>

definition render :: "(Rule \<Rightarrow> jsval \<Rightarrow> error + jsval) \<Rightarrow> Messages \<Rightarrow> Rule \<Rightarrow> error + jsval" where
  "render fill m rule =
     (if truthy (rule_customMessage rule) then Inr (rule_customMessage rule)
      else (case getTemplate m rule of
              Inl e \<Rightarrow> Inl e
            | Inr template \<Rightarrow> fill rule template))"

section \<open>The rule catalog and the validator\<close>

text \<open>
  The rule catalog (\<open>Rules\<close>) and the class \<open>Rule\<close> are not part of the sources. The
  validator uses the registration metadata (\<open>isAsync\<close>, \<open>isImplicit\<close>) and the
  predicates: \<open>validate\<close> takes the rule name, the input value, the rule value and the
  attribute, and a synchronous predicate answers with a boolean. A predicate given a
  completion callback either calls it back inside its own invocation, with its outcome
  (\<open>completesNow\<close> is \<open>Some\<close> of it), or defers the call (\<open>None\<close>). The renderer reads
  the rule's custom message and value type and substitutes the placeholders (\<open>fill\<close>).
  All of these are parameters of the model.
\<close>

record Rules =
  isAsync :: "string \<Rightarrow> bool"
  isImplicit :: "string \<Rightarrow> bool"
  validate :: "string \<Rightarrow> jsval \<Rightarrow> jsval \<Rightarrow> jsval \<Rightarrow> bool"
  completesNow :: "string \<Rightarrow> jsval \<Rightarrow> jsval \<Rightarrow> jsval \<Rightarrow> bool option"
  customMessage :: "string \<Rightarrow> jsval"
  getValueType :: "string \<Rightarrow> string \<Rightarrow> jsval \<Rightarrow> string"
  fill :: "Rule \<Rightarrow> jsval \<Rightarrow> error + jsval"

text \<open>
  A parsed rule \<open>{name, value}\<close>. The value of a rule written as a string
  (\<open>"min:3"\<close>) is a string of its own, \<open>undefined\<close> when the rule has none. The value
  of a rule written as an object (\<open>{in: [...]}\<close>) is the value in the caller's rule
  specification itself; when it is an array, every rule made from that place of the
  specification refers to the same array, and \<open>_replaceWildCards\<close> writes into it. The
  model names such an array by its place: the key of the flattened rule specification,
  the index in the rules array under that key, and the property of that element.
  \<open>Shared p xs\<close> is the array at the place \<open>p\<close>, \<open>xs\<close> being the elements the caller
  gave it; the elements written since are kept in the validator (\<open>ruleArrays\<close>).
\<close>

type_synonym place = "string \<times> nat \<times> string"

datatype param = Own jsval | Shared place "jsval list"

record rule_options =
  name :: string
  rvalue :: param

type_synonym store = "(place \<times> jsval list) list"

definition elements :: "store \<Rightarrow> place \<Rightarrow> jsval list \<Rightarrow> jsval list" where
  "elements written p xs = (case map_of written p of Some ys \<Rightarrow> ys | None \<Rightarrow> xs)"

fun put :: "store \<Rightarrow> place \<Rightarrow> jsval list \<Rightarrow> store" where
  "put [] p ys = [(p, ys)]"
| "put ((p', ys') # written) p ys =
     (if p' = p then (p, ys) # written else (p', ys') # put written p ys)"

text \<open>The value a rule parameter stands for, as \<open>validate\<close> receives it.\<close>

fun param_value :: "store \<Rightarrow> param \<Rightarrow> jsval" where
  "param_value written (Own x) = x"
| "param_value written (Shared p xs) = JArr (elements written p xs)"

definition param_of :: "place \<Rightarrow> jsval \<Rightarrow> param" where
  "param_of p x = (case x of JArr xs \<Rightarrow> Shared p xs | _ \<Rightarrow> Own x)"

text \<open>\<open>stopOnAttributes\<close>: never set, a boolean, or an array of attribute names.\<close>

datatype stop_on = StopUndefined | StopBool bool | StopList "string list"

text \<open>
  Modelled from the spec: the error collector (the class \<open>Errors\<close>, \<open>./errors\<close>) is not
  part of the sources. It accepts pairs of an attribute path and a message in the order
  produced. The field \<open>errors\<close> of the validator is the sequence of the pairs passed to
  \<open>errors.add\<close> so far. What the collector keeps of them is its own business; the spec
  does not say whether a pair it already holds is kept a second time (\<open>collected\<close>,
  further down, is the content of a collector after a sequence of pairs).
\<close>

type_synonym Errors = "(string \<times> jsval) list"

definition errors_add :: "string \<Rightarrow> jsval \<Rightarrow> Errors \<Rightarrow> Errors" where
  "errors_add attribute message collected = collected @ [(attribute, message)]"

record Validator =
  input :: jsval
  messages :: Messages
  errors :: Errors
  errorCount :: nat
  hasAsync :: bool
  rules :: "(string \<times> rule_options list) list"
  stopOnAttributes :: stop_on
  ruleArrays :: store

subsection \<open>Threading a state through a loop that may throw\<close>

fun fold_err :: "('a \<Rightarrow> 's \<Rightarrow> error + 's) \<Rightarrow> 'a list \<Rightarrow> 's \<Rightarrow> error + 's" where
  "fold_err f [] s = Inr s"
| "fold_err f (x # xs) s =
     (case f x s of
        Inl e \<Rightarrow> Inl e
      | Inr s' \<Rightarrow> fold_err f xs s')"

lemma fold_err_cong [fundef_cong]:
  "xs = ys \<Longrightarrow> s = t \<Longrightarrow> (\<And>x u. x \<in> set ys \<Longrightarrow> f x u = g x u)
   \<Longrightarrow> fold_err f xs s = fold_err g ys t"
proof (induction ys arbitrary: xs s t)
  case Nil
  then show ?case by simp
next
  case (Cons y ys)
  then show ?case by (auto split: sum.splits)
qed

subsection \<open>Wildcards\<close>

text \<open>
  \<open>s.replace('*', n)\<close>, and one round of the loop of \<open>_replaceWildCards\<close>: the first
  \<open>*\<close> becomes the decimal form of \<open>n\<close>; a string without \<open>*\<close> stays as it is.
\<close>

fun replace_star :: "string \<Rightarrow> nat \<Rightarrow> string" where
  "replace_star [] n = []"
| "replace_star (c # cs) n =
     (if c = CHR ''*'' then string_of_nat n @ cs else c # replace_star cs n)"

text \<open>
  One call of the function handed to \<open>nums.forEach\<close>, on the variable \<open>path2\<close>: an
  array is replaced by its first element; then \<open>path2.indexOf('*')\<close> is asked. A string
  has its first star replaced, or stays as it is. An array (the first element was one)
  answers with the position of an element \<open>"*"\<close>: without one it stays, with one the
  call of \<open>path2.substr\<close> throws. Every other value has no \<open>indexOf\<close> to call.
\<close>

fun first_element :: "jsval \<Rightarrow> jsval" where
  "first_element (JArr []) = JUndef"
| "first_element (JArr (y # ys)) = y"
| "first_element v = v"

fun star_in :: "nat \<Rightarrow> jsval \<Rightarrow> error + jsval" where
  "star_in value (JStr s) = Inr (JStr (replace_star s value))"
| "star_in value (JArr zs) = (if JStr ''*'' \<in> set zs then Inl TypeError else Inr (JArr zs))"
| "star_in value v = Inl TypeError"

definition star_step :: "nat \<Rightarrow> jsval \<Rightarrow> error + jsval" where
  "star_step value path2 = star_in value (first_element path2)"

text \<open>
  \<open>_replaceWildCards(path, nums)\<close>. Without \<open>nums\<close> the path is returned as it is.
  Otherwise the rounds above run, and an array gets the outcome as its first element:
  \<open>path[0] = path2\<close> writes into the array of the caller's rule specification, which
  the later expansions of the same pattern read again and which the rules parsed before
  refer to. (With an empty \<open>nums\<close>, which the parser never passes, an array would become
  its own first element; no value of the model is a cycle.)
\<close>

definition replaceWildCards :: "param \<Rightarrow> nat list option \<Rightarrow> store \<Rightarrow> error + param \<times> store" where
  "replaceWildCards path nums written =
     (case nums of
        None \<Rightarrow> Inr (path, written)
      | Some ns \<Rightarrow>
          (case fold_err star_step ns (param_value written path) of
             Inl e \<Rightarrow> Inl e
           | Inr path2 \<Rightarrow>
               (case path of
                  Shared p xs \<Rightarrow>
                    (if ns = [] then Inl Unmodelled
                     else Inr (path, put written p (path2 # tl (elements written p xs))))
                | Own (JArr xs) \<Rightarrow>
                    (if ns = [] then Inl Unmodelled else Inr (Own (JArr (path2 # tl xs)), written))
                | Own x \<Rightarrow> Inr (Own path2, written))))"

text \<open>The same on a key of the custom messages, which is a string.\<close>

fun replaceWildCards_key :: "string \<Rightarrow> nat list option \<Rightarrow> string" where
  "replaceWildCards_key key None = key"
| "replaceWildCards_key key (Some nums) = foldl replace_star key nums"

text \<open>
  \<open>_replaceWildCardsMessages(nums)\<close>: for every key the custom messages had at the call,
  the message under the key is stored again under the key with its stars replaced.
\<close>

fun rebind_keys :: "string list \<Rightarrow> nat list option \<Rightarrow> (string \<times> jsval) list \<Rightarrow> (string \<times> jsval) list" where
  "rebind_keys [] nums custom = custom"
| "rebind_keys (key # keys) nums custom =
     rebind_keys keys nums
       (if nums \<noteq> None
        then obj_set custom (replaceWildCards_key key nums)
               (case map_of custom key of Some t \<Rightarrow> t | None \<Rightarrow> JUndef)
        else custom)"

definition replaceWildCardsMessages :: "nat list option \<Rightarrow> Messages \<Rightarrow> Messages" where
  "replaceWildCardsMessages nums m =
     m\<lparr>customMessages := rebind_keys (map fst (customMessages m)) nums (customMessages m)\<rparr>"

subsection \<open>Rule definitions\<close>

text \<open>\<open>xs.join(d)\<close> for strings.\<close>

fun join_with :: "char \<Rightarrow> string list \<Rightarrow> string" where
  "join_with d [] = []"
| "join_with d [x] = x"
| "join_with d (x # xs) = x @ d # join_with d xs"

text \<open>\<open>_extractRuleAndRuleValue\<close>: \<open>min:3\<close> is the rule \<open>min\<close> with the value \<open>3\<close>.\<close>

definition extractRuleAndRuleValue :: "string \<Rightarrow> rule_options" where
  "extractRuleAndRuleValue ruleString =
     (if CHR '':'' \<in> set ruleString
      then (let ruleArray = split_on (CHR '':'') ruleString in
              \<lparr>name = hd ruleArray, rvalue = Own (JStr (join_with (CHR '':'') (tl ruleArray)))\<rparr>)
      else \<lparr>name = ruleString, rvalue = Own JUndef\<rparr>)"

text \<open>
  The elements of the rules array after \<open>_prepareRulesArray\<close>: a string, a rule built
  from a key of an object (or an index of an array), or an element pushed as it is. A
  number or a boolean pushed as it is has neither name nor value and is outside the
  model; \<open>undefined\<close> makes the loop of \<open>_parseRulesDefault\<close> throw when it reads
  \<open>rule.value\<close>. \<open>origin\<close> is the key of the flattened rule specification under which
  the rules array stands: it names the places of the arrays in it.
\<close>

datatype rule_item = ItemString string | ItemRule rule_options | ItemUndefined | ItemOther

fun prepare_element :: "string \<Rightarrow> nat \<Rightarrow> jsval \<Rightarrow> rule_item list" where
  "prepare_element origin i (JObj kvs) =
     map (\<lambda>kv. ItemRule \<lparr>name = fst kv, rvalue = param_of (origin, i, fst kv) (snd kv)\<rparr>) kvs"
| "prepare_element origin i (JArr xs) =
     map (\<lambda>j. ItemRule \<lparr>name = string_of_nat j,
                         rvalue = param_of (origin, i, string_of_nat j) (xs ! j)\<rparr>)
       [0..<length xs]"
| "prepare_element origin i JNull = []"
| "prepare_element origin i (JStr s) = [ItemString s]"
| "prepare_element origin i JUndef = [ItemUndefined]"
| "prepare_element origin i v = [ItemOther]"

definition prepareRulesArray :: "string \<Rightarrow> jsval list \<Rightarrow> rule_item list" where
  "prepareRulesArray origin rulesArray =
     concat (map (\<lambda>i. prepare_element origin i (rulesArray ! i)) [0..<length rulesArray])"

text \<open>
  The rules array as the loop of \<open>_parseRulesDefault\<close> sees it. A string is split at
  \<open>|\<close>; a number, a boolean or an object without \<open>length\<close> gives no rule; \<open>null\<close>
  and \<open>undefined\<close> throw. An object with a \<open>length\<close> is outside the model (the
  flattening hands over no object but the empty one).
\<close>

fun rule_items :: "string \<Rightarrow> jsval \<Rightarrow> error + rule_item list" where
  "rule_items origin (JArr xs) = Inr (prepareRulesArray origin xs)"
| "rule_items origin (JStr s) = Inr (map ItemString (split_on (CHR ''|'') s))"
| "rule_items origin JUndef = Inl TypeError"
| "rule_items origin JNull = Inl TypeError"
| "rule_items origin (JObj kvs) =
     (case map_of kvs ''length'' of None \<Rightarrow> Inr [] | Some n \<Rightarrow> Inl Unmodelled)"
| "rule_items origin v = Inr []"

text \<open>One round of the loop of \<open>_parseRulesDefault\<close>, on the rules collected so far and
  the validator.\<close>

definition parse_rule ::
  "Rules \<Rightarrow> nat list option \<Rightarrow> rule_options \<Rightarrow> rule_options list \<times> Validator \<Rightarrow>
   error + rule_options list \<times> Validator" where
  "parse_rule reg wildCardValues rule st =
     (let (attributeRules, v) = st in
      case (if truthy (param_value (ruleArrays v) (rvalue rule))
            then (case replaceWildCards (rvalue rule) wildCardValues (ruleArrays v) of
                    Inl e \<Rightarrow> Inl e
                  | Inr (value', written') \<Rightarrow>
                      Inr (rule\<lparr>rvalue := value'\<rparr>,
                           v\<lparr>ruleArrays := written',
                             messages := replaceWildCardsMessages wildCardValues (messages v)\<rparr>))
            else Inr (rule, v)) of
        Inl e \<Rightarrow> Inl e
      | Inr (rule', v') \<Rightarrow>
          Inr (attributeRules @ [rule'],
               (if isAsync reg (name rule') then v'\<lparr>hasAsync := True\<rparr> else v')))"

fun parse_item ::
  "Rules \<Rightarrow> nat list option \<Rightarrow> rule_item \<Rightarrow> rule_options list \<times> Validator \<Rightarrow>
   error + rule_options list \<times> Validator" where
  "parse_item reg wildCardValues (ItemString s) st =
     parse_rule reg wildCardValues (extractRuleAndRuleValue s) st"
| "parse_item reg wildCardValues (ItemRule rule) st = parse_rule reg wildCardValues rule st"
| "parse_item reg wildCardValues ItemUndefined st = Inl TypeError"
| "parse_item reg wildCardValues ItemOther st = Inl Unmodelled"

definition parseRulesDefault ::
  "Rules \<Rightarrow> string \<Rightarrow> string \<Rightarrow> jsval \<Rightarrow> nat list option \<Rightarrow>
   (string \<times> rule_options list) list \<times> Validator \<Rightarrow>
   error + (string \<times> rule_options list) list \<times> Validator" where
  "parseRulesDefault reg origin attribute rulesArray wildCardValues st =
     (let (parsedRules, v) = st in
      case rule_items origin rulesArray of
        Inl e \<Rightarrow> Inl e
      | Inr items \<Rightarrow>
          (case fold_err (parse_item reg wildCardValues) items ([], v) of
             Inl e \<Rightarrow> Inl e
           | Inr (attributeRules, v') \<Rightarrow> Inr (obj_set parsedRules attribute attributeRules, v')))"

subsection \<open>Expansion of a wildcard path\<close>

text \<open>\<open>attribute.substr(0, attribute.indexOf('*') - 1)\<close>; a negative length gives the
  empty string.\<close>

definition indexOf_star :: "string \<Rightarrow> int" where
  "indexOf_star s =
     (if CHR ''*'' \<in> set s then int (length (takeWhile (\<lambda>c. c \<noteq> CHR ''*'') s)) else - 1)"

definition parentPath_of :: "string \<Rightarrow> string" where
  "parentPath_of attribute = take (nat (indexOf_star attribute - 1)) attribute"

text \<open>
  The number of rounds of \<open>for (n = 0; n < propertyValue.length; n++)\<close>. An array and a
  string have their length; a number, a boolean and an object without \<open>length\<close> have
  none, and the loop does not run. An object with a \<open>length\<close> runs as often as the
  comparison \<open>n < length\<close> allows: a number that often, \<open>true\<close> once, \<open>false\<close>,
  \<open>null\<close> and \<open>undefined\<close> never. The conversion of a string, an array or an object
  to a number is outside the model.
\<close>

fun loop_count :: "jsval \<Rightarrow> error + nat" where
  "loop_count (JArr xs) = Inr (length xs)"
| "loop_count (JStr s) = Inr (length s)"
| "loop_count (JObj kvs) =
     (case map_of kvs ''length'' of
        None \<Rightarrow> Inr 0
      | Some (JNum n) \<Rightarrow> Inr (nat n)
      | Some (JBool b) \<Rightarrow> Inr (if b then 1 else 0)
      | Some JUndef \<Rightarrow> Inr 0
      | Some JNull \<Rightarrow> Inr 0
      | Some w \<Rightarrow> Inl Unmodelled)"
| "loop_count v = Inr 0"

definition count_star :: "string \<Rightarrow> nat" where
  "count_star s = length (filter (\<lambda>c. c = CHR ''*'') s)"

definition workingValues_of :: "nat list option \<Rightarrow> nat \<Rightarrow> nat list" where
  "workingValues_of wildCardValues propertyNumber =
     (case wildCardValues of None \<Rightarrow> [] | Some ws \<Rightarrow> ws) @ [propertyNumber]"

lemma digit_char_not_star: "d < 10 \<Longrightarrow> CHR ''*'' \<noteq> digit_char d"
proof -
  assume "d < 10"
  then have "d \<in> {0, 1, 2, 3, 4, 5, 6, 7, 8, 9}" by auto
  then show ?thesis by (auto simp: digit_char_def)
qed

lemma string_of_nat_no_star: "CHR ''*'' \<notin> set (string_of_nat n)"
proof (induction n rule: string_of_nat.induct)
  case (1 n)
  show ?case
  proof (cases "n < 10")
    case True
    then show ?thesis by (simp add: string_of_nat.simps[of n] digit_char_not_star)
  next
    case False
    then have "CHR ''*'' \<notin> set (string_of_nat (n div 10))" by (rule "1.IH")
    moreover have "CHR ''*'' \<noteq> digit_char (n mod 10)" by (simp add: digit_char_not_star)
    ultimately show ?thesis using False by (simp add: string_of_nat.simps[of n])
  qed
qed

lemma count_star_replace:
  "CHR ''*'' \<in> set s \<Longrightarrow> count_star (replace_star s n) < count_star s"
proof (induction s)
  case Nil
  then show ?case by simp
next
  case (Cons c cs)
  have "filter (\<lambda>c. c = CHR ''*'') (string_of_nat n) = []"
    using string_of_nat_no_star[of n] by (auto simp: filter_empty_conv)
  with Cons show ?case by (auto simp: count_star_def)
qed

lemma replace_star_id: "CHR ''*'' \<notin> set s \<Longrightarrow> replace_star s n = s"
  by (induction s) auto

function parseRulesCheck ::
  "Rules \<Rightarrow> string \<Rightarrow> string \<Rightarrow> jsval \<Rightarrow> nat list option \<Rightarrow>
   (string \<times> rule_options list) list \<times> Validator \<Rightarrow>
   error + (string \<times> rule_options list) list \<times> Validator"
and parsedRulesRecurse ::
  "Rules \<Rightarrow> string \<Rightarrow> string \<Rightarrow> jsval \<Rightarrow> nat list option \<Rightarrow>
   (string \<times> rule_options list) list \<times> Validator \<Rightarrow>
   error + (string \<times> rule_options list) list \<times> Validator"
where
  "parseRulesCheck reg origin attribute rulesArray wildCardValues st =
     (if CHR ''*'' \<in> set attribute
      then parsedRulesRecurse reg origin attribute rulesArray wildCardValues st
      else parseRulesDefault reg origin attribute rulesArray wildCardValues st)"
| "parsedRulesRecurse reg origin attribute rulesArray wildCardValues st =
     (case objectPath (input (snd st)) (parentPath_of attribute) of
        Inl e \<Rightarrow> Inl e
      | Inr propertyValue \<Rightarrow>
          (if truthy propertyValue
           then (case loop_count propertyValue of
                   Inl e \<Rightarrow> Inl e
                 | Inr n \<Rightarrow>
                     fold_err
                       (\<lambda>propertyNumber.
                          parseRulesCheck reg origin (replace_star attribute propertyNumber) rulesArray
                            (Some (workingValues_of wildCardValues propertyNumber)))
                       [0..<n] st)
           else Inr st))"
  by pat_completeness auto
termination
proof (relation "measure (\<lambda>x. case x of
          Inl (reg, origin, attribute, r) \<Rightarrow> 3 * count_star attribute + 1
        | Inr (reg, origin, attribute, r) \<Rightarrow> (if CHR ''*'' \<in> set attribute then 3 * count_star attribute else 2))")
  show "wf (measure (\<lambda>x. case x of
          Inl (reg, origin, attribute, r) \<Rightarrow> 3 * count_star attribute + 1
        | Inr (reg, origin, attribute, r) \<Rightarrow> (if CHR ''*'' \<in> set attribute then 3 * count_star attribute else 2)))"
    by simp
next
  fix reg :: Rules and origin attribute :: string and rulesArray :: jsval
    and wildCardValues :: "nat list option"
    and st :: "(string \<times> rule_options list) list \<times> Validator"
  assume "CHR ''*'' \<in> set attribute"
  then show "(Inr (reg, origin, attribute, rulesArray, wildCardValues, st),
              Inl (reg, origin, attribute, rulesArray, wildCardValues, st))
        \<in> measure (\<lambda>x. case x of
          Inl (reg, origin, attribute, r) \<Rightarrow> 3 * count_star attribute + 1
        | Inr (reg, origin, attribute, r) \<Rightarrow> (if CHR ''*'' \<in> set attribute then 3 * count_star attribute else 2))"
    by simp
next
  fix reg :: Rules and origin attribute :: string and rulesArray :: jsval
    and wildCardValues :: "nat list option"
    and st :: "(string \<times> rule_options list) list \<times> Validator"
    and propertyValue :: jsval and n x :: nat
    and u :: "(string \<times> rule_options list) list \<times> Validator"
  show "(Inl (reg, origin, replace_star attribute x, rulesArray,
               Some (workingValues_of wildCardValues x), u),
         Inr (reg, origin, attribute, rulesArray, wildCardValues, st))
        \<in> measure (\<lambda>x. case x of
          Inl (reg, origin, attribute, r) \<Rightarrow> 3 * count_star attribute + 1
        | Inr (reg, origin, attribute, r) \<Rightarrow> (if CHR ''*'' \<in> set attribute then 3 * count_star attribute else 2))"
  proof (cases "CHR ''*'' \<in> set attribute")
    case True
    from count_star_replace[OF True, of x] True show ?thesis by simp
  next
    case False
    then show ?thesis by (auto simp: replace_star_id count_star_def filter_empty_conv)
  qed
qed

declare parseRulesCheck.simps [simp del]
declare parsedRulesRecurse.simps [simp del]

text \<open>\<open>_parseRules\<close>: the rules object is flattened and every flattened key is parsed.\<close>

definition parseRules ::
  "Rules \<Rightarrow> jsval \<Rightarrow> Validator \<Rightarrow> error + (string \<times> rule_options list) list \<times> Validator" where
  "parseRules reg rules' v =
     (case flattenObject rules' of
        Inl e \<Rightarrow> Inl e
      | Inr flat \<Rightarrow>
          fold_err (\<lambda>(attribute, rulesArray). parseRulesCheck reg attribute attribute rulesArray None)
            flat ([], v))"

text \<open>
  The constructor. \<open>langTable\<close> stands for \<open>Lang._make(lang)\<close>, the localized table of
  the default language, which is not part of the sources.
\<close>

definition new_Validator ::
  "Rules \<Rightarrow> (string \<times> jsval) list \<Rightarrow> jsval \<Rightarrow> jsval \<Rightarrow> (string \<times> jsval) list \<Rightarrow> error + Validator" where
  "new_Validator reg langTable input' rules' customMessages' =
     (let v = \<lparr>input = (if truthy input' then input' else JObj []),
               messages = \<lparr>lang = ''en'', langMessages = langTable,
                            customMessages = customMessages', attributeNames = []\<rparr>,
               errors = [], errorCount = 0, hasAsync = False, rules = [],
               stopOnAttributes = StopUndefined, ruleArrays = []\<rparr>
      in case parseRules reg rules' v of
           Inl e \<Rightarrow> Inl e
         | Inr (parsedRules, v') \<Rightarrow> Inr (v'\<lparr>rules := parsedRules\<rparr>))"

text \<open>
  Invariants of the parse: a rule of an asynchronous name among the parsed rules has set
  \<open>hasAsync\<close>; the same of the rules collected for one attribute, where \<open>hasAsync\<close>
  also stays set when it was set \<open>before\<close>.
\<close>

definition async_marked :: "Rules \<Rightarrow> (string \<times> rule_options list) list \<times> Validator \<Rightarrow> bool" where
  "async_marked reg st =
     (\<forall>(attribute, rs)\<in>set (fst st). \<forall>r\<in>set rs. isAsync reg (name r) \<longrightarrow> hasAsync (snd st))"

definition async_collected :: "Rules \<Rightarrow> bool \<Rightarrow> rule_options list \<times> Validator \<Rightarrow> bool" where
  "async_collected reg before st =
     ((before \<longrightarrow> hasAsync (snd st)) \<and> (\<forall>r\<in>set (fst st). isAsync reg (name r) \<longrightarrow> hasAsync (snd st)))"

subsection \<open>What an expansion is expected to write\<close>

text \<open>
  The rule an element of the prepared rules array stands for, and the rule with the
  indices of a binding put for the stars of its parameter, from left to right. An
  element is \<open>bindable\<close> when it is a string or a rule whose value is a string or falsy:
  the rule definitions written as \<open>"required|min:*"\<close>, \<open>["required", "min:*"]\<close> or
  \<open>[{min: "*"}]\<close>. (A number as value makes \<open>_replaceWildCards\<close> throw, and an
  array is shared by all the rules expanded from it.)
\<close>

fun item_rule :: "rule_item \<Rightarrow> rule_options" where
  "item_rule (ItemString s) = extractRuleAndRuleValue s"
| "item_rule (ItemRule rule) = rule"
| "item_rule item = \<lparr>name = [], rvalue = Own JUndef\<rparr>"

fun string_or_falsy :: "jsval \<Rightarrow> bool" where
  "string_or_falsy (JStr s) = True"
| "string_or_falsy v = (\<not> truthy v)"

fun own_string_or_falsy :: "param \<Rightarrow> bool" where
  "own_string_or_falsy (Own x) = string_or_falsy x"
| "own_string_or_falsy (Shared p xs) = False"

fun bindable :: "rule_item \<Rightarrow> bool" where
  "bindable (ItemString s) = True"
| "bindable (ItemRule rule) = own_string_or_falsy (rvalue rule)"
| "bindable item = False"








section \<open>EvaluationEngine\<close>

subsection \<open>Which rules run\<close>

text \<open>\<open>this.rules[attribute] || []\<close>.\<close>

definition rules_at :: "Validator \<Rightarrow> string \<Rightarrow> rule_options list" where
  "rules_at v attribute = (case map_of (rules v) attribute of Some rs \<Rightarrow> rs | None \<Rightarrow> [])"

definition hasRule :: "Validator \<Rightarrow> string \<Rightarrow> string list \<Rightarrow> bool" where
  "hasRule v attribute findRules = list_ex (\<lambda>r. name r \<in> set findRules) (rules_at v attribute)"

text \<open>
  \<open>_suppliedWithData\<close> calls \<open>this.input.hasOwnProperty(attribute)\<close> on the input
  itself: an input with a property \<open>hasOwnProperty\<close> of its own makes it throw.
\<close>

definition suppliedWithData :: "Validator \<Rightarrow> string \<Rightarrow> error + bool" where
  "suppliedWithData v attribute = call_hasOwnProperty (input v) attribute"

text \<open>
  The test \<open>this._hasRule(attribute, ['sometimes']) && !this._suppliedWithData(attribute)\<close>
  of both engines; the second operand is evaluated only when the first holds.
\<close>

definition skipped :: "Validator \<Rightarrow> string \<Rightarrow> error + bool" where
  "skipped v attribute =
     (if hasRule v attribute [''sometimes'']
      then (case suppliedWithData v attribute of
              Inl e \<Rightarrow> Inl e
            | Inr supplied \<Rightarrow> Inr (\<not> supplied))
      else Inr False)"

text \<open>\<open>_isValidatable\<close>: an array, an implicit rule, or a value that \<open>required\<close> accepts.\<close>

fun is_array :: "jsval \<Rightarrow> bool" where
  "is_array (JArr xs) = True"
| "is_array v = False"

definition isValidatable :: "Rules \<Rightarrow> string \<Rightarrow> jsval \<Rightarrow> bool" where
  "isValidatable reg ruleName val =
     (if is_array val then True
      else if isImplicit reg ruleName then True
      else validate reg ''required'' val JUndef JUndef)"

definition shouldStopValidating :: "Validator \<Rightarrow> string \<Rightarrow> bool \<Rightarrow> bool" where
  "shouldStopValidating v attribute rulePassed =
     (if stopOnAttributes v = StopUndefined \<or> stopOnAttributes v = StopBool False \<or> rulePassed
      then False
      else (case stopOnAttributes v of
              StopList attributes \<Rightarrow> attribute \<in> set attributes
            | _ \<Rightarrow> True))"

subsection \<open>Failures\<close>

text \<open>The rule instance of \<open>getRule(name)\<close> after \<open>validate\<close> ran for an attribute.\<close>

definition getRule :: "Rules \<Rightarrow> string \<Rightarrow> string \<Rightarrow> jsval \<Rightarrow> Rule" where
  "getRule reg ruleName attribute inputValue =
     \<lparr>rule_name = ruleName, rule_attribute = attribute,
      rule_customMessage = customMessage reg ruleName,
      rule_valueType = getValueType reg ruleName attribute inputValue\<rparr>"

definition addFailure :: "Rules \<Rightarrow> Rule \<Rightarrow> Validator \<Rightarrow> error + Validator" where
  "addFailure reg rule v =
     (case render (fill reg) (messages v) rule of
        Inl e \<Rightarrow> Inl e
      | Inr msg \<Rightarrow>
          Inr (v\<lparr>errors := errors_add (rule_attribute rule) msg (errors v),
                 errorCount := errorCount v + 1\<rparr>))"

subsection \<open>\<open>check\<close>\<close>

text \<open>The inner loop of \<open>check\<close> over the rules of one attribute, with its \<open>continue\<close>
  and its \<open>break\<close>.\<close>

fun check_rules ::
  "Rules \<Rightarrow> string \<Rightarrow> jsval \<Rightarrow> rule_options list \<Rightarrow> Validator \<Rightarrow> error + Validator" where
  "check_rules reg attribute inputValue [] v = Inr v"
| "check_rules reg attribute inputValue (ruleOptions # rest) v =
     (if \<not> isValidatable reg (name ruleOptions) inputValue
      then check_rules reg attribute inputValue rest v
      else
        (let rulePassed =
               validate reg (name ruleOptions) inputValue
                 (param_value (ruleArrays v) (rvalue ruleOptions)) (JStr attribute)
         in case (if \<not> rulePassed
                  then addFailure reg (getRule reg (name ruleOptions) attribute inputValue) v
                  else Inr v) of
              Inl e \<Rightarrow> Inl e
            | Inr v' \<Rightarrow>
                (if shouldStopValidating v' attribute rulePassed then Inr v'
                 else check_rules reg attribute inputValue rest v')))"

text \<open>One round of the outer loop.\<close>

definition check_attribute :: "Rules \<Rightarrow> string \<Rightarrow> Validator \<Rightarrow> error + Validator" where
  "check_attribute reg attribute v =
     (case objectPath (input v) attribute of
        Inl e \<Rightarrow> Inl e
      | Inr inputValue \<Rightarrow>
          (case skipped v attribute of
             Inl e \<Rightarrow> Inl e
           | Inr True \<Rightarrow> Inr v
           | Inr False \<Rightarrow> check_rules reg attribute inputValue (rules_at v attribute) v))"

definition check :: "Rules \<Rightarrow> Validator \<Rightarrow> error + bool \<times> Validator" where
  "check reg v =
     (case fold_err (check_attribute reg) (map fst (rules v)) v of
        Inl e \<Rightarrow> Inl e
      | Inr v' \<Rightarrow> Inr (errorCount v' = 0, v'))"

subsection \<open>What a collector keeps\<close>

text \<open>
  The content of a collector whose \<open>add\<close> is the given function, from the content
  \<open>start\<close>, after the pairs of \<open>calls\<close> were passed to it in order. A collector
  \<open>records_once\<close> when a pair passed twice in a row changes nothing the second time,
  and a pair that changes nothing when it is passed still changes nothing after another
  pair was added: it keeps a pair it holds and does not keep it a second time.
\<close>

definition collected :: "(string \<Rightarrow> jsval \<Rightarrow> 'c \<Rightarrow> 'c) \<Rightarrow> 'c \<Rightarrow> Errors \<Rightarrow> 'c" where
  "collected add start calls = foldl (\<lambda>c call. add (fst call) (snd call) c) start calls"


section \<open>AsyncCoordinator\<close>

text \<open>
  Modelled from the spec: the class \<open>AsyncResolvers\<close> (\<open>./async\<close>) is not part of the
  sources. It is the counting barrier of the design: \<open>register\<close> (\<open>add\<close> in the
  validator) gives the next token and stores a pending entry; \<open>resolve\<close> marks a token
  resolved, reports a failed rule and clears the aggregate-pass flag, and fires when that
  was the last pending token and dispatch is complete; \<open>markDispatchComplete\<close>
  (\<open>enableFiring\<close> followed by \<open>fire\<close> in the validator) marks dispatch finished and fires
  when no token is pending. Resolving an unknown or already resolved token is an error,
  and so is any call after the aggregate callback fired (the state is then disposed).
  \<open>registered\<close> holds the pending entries; the tokens are issued 0, 1, 2, ...
\<close>

record AsyncRunState =
  registered :: "(nat \<times> Rule) list"
  resolvedCount :: nat
  dispatchComplete :: bool
  allPassed :: bool
  fired :: bool

text \<open>The two callbacks the coordinator was created with, as the calls it makes.\<close>

datatype effect = FailedOne Rule | ResolvedAll bool

definition new_AsyncRunState :: AsyncRunState where
  "new_AsyncRunState =
     \<lparr>registered = [], resolvedCount = 0, dispatchComplete = False, allPassed = True,
      fired = False\<rparr>"

definition fire_when_done :: "AsyncRunState \<Rightarrow> effect list \<times> AsyncRunState" where
  "fire_when_done s =
     (if registered s = [] \<and> dispatchComplete s
      then ([ResolvedAll (allPassed s)], s\<lparr>fired := True\<rparr>)
      else ([], s))"

definition register :: "Rule \<Rightarrow> AsyncRunState \<Rightarrow> error + nat \<times> AsyncRunState" where
  "register ruleRef s =
     (if fired s then Inl ProtocolViolation
      else (let token = length (registered s) + resolvedCount s
            in Inr (token, s\<lparr>registered := registered s @ [(token, ruleRef)]\<rparr>)))"

definition resolve :: "nat \<Rightarrow> bool \<Rightarrow> AsyncRunState \<Rightarrow> error + effect list \<times> AsyncRunState" where
  "resolve token passed s =
     (if fired s then Inl ProtocolViolation
      else (case map_of (registered s) token of
              None \<Rightarrow> Inl ProtocolViolation
            | Some ruleRef \<Rightarrow>
                (let s' = s\<lparr>registered := filter (\<lambda>entry. fst entry \<noteq> token) (registered s),
                             resolvedCount := resolvedCount s + 1,
                             allPassed := (allPassed s \<and> passed)\<rparr>;
                     (effects, s'') = fire_when_done s'
                 in Inr ((if passed then [] else [FailedOne ruleRef]) @ effects, s''))))"

definition markDispatchComplete :: "AsyncRunState \<Rightarrow> error + effect list \<times> AsyncRunState" where
  "markDispatchComplete s =
     (if fired s then Inl ProtocolViolation
      else Inr (fire_when_done (s\<lparr>dispatchComplete := True\<rparr>)))"

text \<open>
  A run of the coordinator as the sequence of the calls it receives; the effects are
  collected in order.
\<close>

datatype event = Register Rule | Resolve nat bool | MarkDispatchComplete

fun apply_event :: "event \<Rightarrow> effect list \<times> AsyncRunState \<Rightarrow> error + effect list \<times> AsyncRunState" where
  "apply_event (Register ruleRef) (effects, s) =
     (case register ruleRef s of
        Inl e \<Rightarrow> Inl e
      | Inr (token, s') \<Rightarrow> Inr (effects, s'))"
| "apply_event (Resolve token passed) (effects, s) =
     (case resolve token passed s of
        Inl e \<Rightarrow> Inl e
      | Inr (effects', s') \<Rightarrow> Inr (effects @ effects', s'))"
| "apply_event MarkDispatchComplete (effects, s) =
     (case markDispatchComplete s of
        Inl e \<Rightarrow> Inl e
      | Inr (effects', s') \<Rightarrow> Inr (effects @ effects', s'))"

definition run_events :: "event list \<Rightarrow> error + effect list \<times> AsyncRunState" where
  "run_events evs = fold_err apply_event evs ([], new_AsyncRunState)"

text \<open>The invocations of the aggregate callback among the effects.\<close>

fun aggregate_calls :: "effect list \<Rightarrow> bool list" where
  "aggregate_calls [] = []"
| "aggregate_calls (ResolvedAll b # effects) = b # aggregate_calls effects"
| "aggregate_calls (FailedOne r # effects) = aggregate_calls effects"

text \<open>
  The schedules of a run: the checks are registered one by one and dispatch is marked
  complete once, after the last registration; every token is resolved once, at any time
  after it was issued, before or after the dispatch-complete signal; nothing is left
  pending at the end. \<open>schedule issued resolved marked evs\<close> reads the rest \<open>evs\<close> of a
  schedule after \<open>issued\<close> registrations, the resolutions of the tokens \<open>resolved\<close> and,
  when \<open>marked\<close>, the signal.
\<close>

fun schedule :: "nat \<Rightarrow> nat list \<Rightarrow> bool \<Rightarrow> event list \<Rightarrow> bool" where
  "schedule issued resolved marked [] = (marked \<and> length resolved = issued)"
| "schedule issued resolved marked (Register ruleRef # evs) =
     (\<not> marked \<and> schedule (Suc issued) resolved marked evs)"
| "schedule issued resolved marked (Resolve token passed # evs) =
     (token < issued \<and> token \<notin> set resolved \<and> schedule issued (token # resolved) marked evs)"
| "schedule issued resolved marked (MarkDispatchComplete # evs) =
     (\<not> marked \<and> schedule issued resolved True evs)"

section \<open>The asynchronous engine and the entry points\<close>

text \<open>
  An argument that may be a callback: a function of the caller (with a label, to
  recognise its calls), the empty function \<open>function () {}\<close> of the source, or a value
  that is not a function (\<open>Val JUndef\<close> is the argument left out).
\<close>

datatype fn_arg = Fn string | Noop | Val jsval

fun is_function :: "fn_arg \<Rightarrow> bool" where
  "is_function (Val v) = False"
| "is_function f = True"

text \<open>\<open>f || function () {}\<close>.\<close>

fun or_noop :: "fn_arg \<Rightarrow> fn_arg" where
  "or_noop (Val v) = (if truthy v then Val v else Noop)"
| "or_noop f = f"

text \<open>
  An asynchronous run: the coordinator, the validator that owns it, the two callbacks, the
  labels of the caller's functions called so far, and the arguments of the calls of
  \<open>resolvedAll\<close> so far.
\<close>

record AsyncRun =
  coordinator :: AsyncRunState
  owner :: Validator
  onPasses :: fn_arg
  onFails :: fn_arg
  calls :: "string list"
  resolvedAllCalls :: "bool list"

text \<open>Calling a callback; a value that is not a function throws.\<close>

fun call_fn :: "fn_arg \<Rightarrow> AsyncRun \<Rightarrow> error + AsyncRun" where
  "call_fn (Fn label) run = Inr (run\<lparr>calls := calls run @ [label]\<rparr>)"
| "call_fn Noop run = Inr run"
| "call_fn (Val v) run = Inl TypeError"

text \<open>\<open>failsOne\<close> and \<open>resolvedAll\<close>, the callbacks \<open>checkAsync\<close> hands to the coordinator.\<close>

fun apply_effect :: "Rules \<Rightarrow> effect \<Rightarrow> AsyncRun \<Rightarrow> error + AsyncRun" where
  "apply_effect reg (FailedOne rule) run =
     (case addFailure reg rule (owner run) of
        Inl e \<Rightarrow> Inl e
      | Inr v' \<Rightarrow> Inr (run\<lparr>owner := v'\<rparr>))"
| "apply_effect reg (ResolvedAll passed) run =
     call_fn (if passed then onPasses run else onFails run)
       (run\<lparr>resolvedAllCalls := resolvedAllCalls run @ [passed]\<rparr>)"

text \<open>The completion callback of one check: \<open>asyncResolvers.resolve(resolverIndex)\<close>.\<close>

definition resolve_token :: "Rules \<Rightarrow> nat \<times> bool \<Rightarrow> AsyncRun \<Rightarrow> error + AsyncRun" where
  "resolve_token reg completion run =
     (case resolve (fst completion) (snd completion) (coordinator run) of
        Inl e \<Rightarrow> Inl e
      | Inr (effects, c) \<Rightarrow> fold_err (apply_effect reg) effects (run\<lparr>coordinator := c\<rparr>))"

text \<open>\<open>validateRule(inputValue, ruleOptions, attribute, rule)()\<close>.\<close>

definition validateRule ::
  "Rules \<Rightarrow> jsval \<Rightarrow> rule_options \<Rightarrow> string \<Rightarrow> AsyncRun \<Rightarrow> error + AsyncRun" where
  "validateRule reg inputValue ruleOptions attribute run =
     (case register (getRule reg (name ruleOptions) attribute inputValue) (coordinator run) of
        Inl e \<Rightarrow> Inl e
      | Inr (resolverIndex, c) \<Rightarrow>
          (case (if isAsync reg (name ruleOptions)
                 then completesNow reg (name ruleOptions) inputValue
                        (param_value (ruleArrays (owner run)) (rvalue ruleOptions)) (JStr attribute)
                 else Some (validate reg (name ruleOptions) inputValue
                        (param_value (ruleArrays (owner run)) (rvalue ruleOptions)) (JStr attribute))) of
             None \<Rightarrow> Inr (run\<lparr>coordinator := c\<rparr>)
           | Some passed \<Rightarrow> resolve_token reg (resolverIndex, passed) (run\<lparr>coordinator := c\<rparr>)))"

fun dispatch_rules ::
  "Rules \<Rightarrow> string \<Rightarrow> jsval \<Rightarrow> rule_options list \<Rightarrow> AsyncRun \<Rightarrow> error + AsyncRun" where
  "dispatch_rules reg attribute inputValue [] run = Inr run"
| "dispatch_rules reg attribute inputValue (ruleOptions # rest) run =
     (if \<not> isValidatable reg (name ruleOptions) inputValue
      then dispatch_rules reg attribute inputValue rest run
      else (case validateRule reg inputValue ruleOptions attribute run of
              Inl e \<Rightarrow> Inl e
            | Inr run' \<Rightarrow> dispatch_rules reg attribute inputValue rest run'))"

definition dispatch_attribute :: "Rules \<Rightarrow> string \<Rightarrow> AsyncRun \<Rightarrow> error + AsyncRun" where
  "dispatch_attribute reg attribute run =
     (case objectPath (input (owner run)) attribute of
        Inl e \<Rightarrow> Inl e
      | Inr inputValue \<Rightarrow>
          (case skipped (owner run) attribute of
             Inl e \<Rightarrow> Inl e
           | Inr True \<Rightarrow> Inr run
           | Inr False \<Rightarrow>
               dispatch_rules reg attribute inputValue (rules_at (owner run) attribute) run))"

text \<open>\<open>checkAsync\<close>: the dispatch of every check, then \<open>enableFiring\<close> and \<open>fire\<close>. It
  returns nothing; the run goes on with the deferred completions.\<close>

definition checkAsync :: "Rules \<Rightarrow> Validator \<Rightarrow> fn_arg \<Rightarrow> fn_arg \<Rightarrow> error + AsyncRun" where
  "checkAsync reg v passes' fails' =
     (case fold_err (dispatch_attribute reg) (map fst (rules v))
             \<lparr>coordinator = new_AsyncRunState, owner = v, onPasses = or_noop passes',
              onFails = or_noop fails', calls = [], resolvedAllCalls = []\<rparr> of
        Inl e \<Rightarrow> Inl e
      | Inr run \<Rightarrow>
          (case markDispatchComplete (coordinator run) of
             Inl e \<Rightarrow> Inl e
           | Inr (effects, c) \<Rightarrow> fold_err (apply_effect reg) effects (run\<lparr>coordinator := c\<rparr>)))"

text \<open>The deferred completions, in the order in which they arrive.\<close>

definition deliver :: "Rules \<Rightarrow> (nat \<times> bool) list \<Rightarrow> AsyncRun \<Rightarrow> error + AsyncRun" where
  "deliver reg completions run = fold_err (resolve_token reg) completions run"

subsection \<open>\<open>passes\<close> and \<open>fails\<close>\<close>

text \<open>\<open>_checkAsync(funcName, callback)\<close>, the guard of the two entry points.\<close>

definition guard_checkAsync :: "Validator \<Rightarrow> string \<Rightarrow> fn_arg \<Rightarrow> error + bool" where
  "guard_checkAsync v funcName callback =
     (let hasCallback = is_function callback in
      if hasAsync v \<and> \<not> hasCallback
      then Inl (UsageError (funcName @ '' expects a callback when async rules are being tested.''))
      else Inr (hasAsync v \<or> hasCallback))"

text \<open>What an entry point leaves behind: the validator after \<open>check\<close>, or the
  asynchronous run \<open>checkAsync\<close> started.\<close>

datatype engine = Synchronous Validator | Asynchronous AsyncRun

definition passes :: "Rules \<Rightarrow> Validator \<Rightarrow> fn_arg \<Rightarrow> error + jsval \<times> engine" where
  "passes reg v passes' =
     (case guard_checkAsync v ''passes'' passes' of
        Inl e \<Rightarrow> Inl e
      | Inr async \<Rightarrow>
          (if async
           then (case checkAsync reg v passes' (Val JUndef) of
                   Inl e \<Rightarrow> Inl e
                 | Inr run \<Rightarrow> Inr (JUndef, Asynchronous run))
           else (case check reg v of
                   Inl e \<Rightarrow> Inl e
                 | Inr (passed, v') \<Rightarrow> Inr (JBool passed, Synchronous v'))))"

definition fails :: "Rules \<Rightarrow> Validator \<Rightarrow> fn_arg \<Rightarrow> error + jsval \<times> engine" where
  "fails reg v fails' =
     (case guard_checkAsync v ''fails'' fails' of
        Inl e \<Rightarrow> Inl e
      | Inr async \<Rightarrow>
          (if async
           then (case checkAsync reg v Noop fails' of
                   Inl e \<Rightarrow> Inl e
                 | Inr run \<Rightarrow> Inr (JUndef, Asynchronous run))
           else (case check reg v of
                   Inl e \<Rightarrow> Inl e
                 | Inr (passed, v') \<Rightarrow> Inr (JBool (\<not> passed), Synchronous v'))))"

section \<open>What a run of the coordinator is expected to do\<close>

text \<open>Whether every resolution of a schedule reported a pass: the argument the
  aggregate callback is to be called with.\<close>

fun outcomes_pass :: "event list \<Rightarrow> bool" where
  "outcomes_pass [] = True"
| "outcomes_pass (Resolve token passed # evs) = (passed \<and> outcomes_pass evs)"
| "outcomes_pass (ev # evs) = outcomes_pass evs"

text \<open>
  The state of the coordinator after a part of a schedule, before the aggregate callback
  fired: \<open>issued\<close> tokens were given out, the tokens \<open>resolved\<close> were resolved, the
  pending ones are the others; and the state after the callback fired, once.
\<close>

definition tracks :: "nat \<Rightarrow> nat list \<Rightarrow> bool \<Rightarrow> bool \<Rightarrow> effect list \<times> AsyncRunState \<Rightarrow> bool" where
  "tracks issued resolved marked ok st =
     (\<not> fired (snd st) \<and> aggregate_calls (fst st) = [] \<and>
      dispatchComplete (snd st) = marked \<and> allPassed (snd st) = ok \<and>
      resolvedCount (snd st) = length resolved \<and>
      distinct resolved \<and> set resolved \<subseteq> {..<issued} \<and>
      distinct (map fst (registered (snd st))) \<and>
      set (map fst (registered (snd st))) = {..<issued} - set resolved \<and>
      length (registered (snd st)) + length resolved = issued)"

definition finished :: "bool \<Rightarrow> effect list \<times> AsyncRunState \<Rightarrow> bool" where
  "finished ok st = (fired (snd st) \<and> aggregate_calls (fst st) = [ok])"

text \<open>
  The two phases of an asynchronous run of the validator: while \<open>checkAsync\<close>
  dispatches, and while it waits for the deferred completions.
\<close>

definition dispatching :: "AsyncRun \<Rightarrow> bool" where
  "dispatching run =
     (\<not> fired (coordinator run) \<and> \<not> dispatchComplete (coordinator run) \<and>
      resolvedAllCalls run = [] \<and>
      distinct (map fst (registered (coordinator run))) \<and>
      (\<forall>t\<in>fst ` set (registered (coordinator run)).
         t < length (registered (coordinator run)) + resolvedCount (coordinator run)))"

definition waiting :: "AsyncRun \<Rightarrow> bool" where
  "waiting run =
     (\<not> fired (coordinator run) \<and> dispatchComplete (coordinator run) \<and>
      resolvedAllCalls run = [] \<and>
      distinct (map fst (registered (coordinator run))) \<and>
      registered (coordinator run) \<noteq> [])"

text \<open>
  A run in which the callbacks of the coordinator cannot throw: the renderer gives a
  message for every rule, and the two completion callbacks are functions.
\<close>

definition quiet :: "Rules \<Rightarrow> AsyncRun \<Rightarrow> bool" where
  "quiet reg run =
     ((\<forall>rule. \<exists>msg. render (fill reg) (messages (owner run)) rule = Inr msg) \<and>
      is_function (onPasses run) \<and> is_function (onFails run))"

section \<open>A small catalog and validator to run the model on\<close>

text \<open>
  The catalog has the implicit rule \<open>required\<close>, the rule \<open>min\<close> on numbers and the
  asynchronous rule \<open>remote\<close>; every other name passes. The validator has the given
  input and custom messages, the default template \<open>D\<close> and no rules yet.
\<close>

definition sample_catalog :: Rules where
  "sample_catalog =
     \<lparr>isAsync = (\<lambda>n. n = ''remote''),
      isImplicit = (\<lambda>n. n = ''required''),
      validate = (\<lambda>n v p a.
         if n = ''required'' then v \<noteq> JUndef \<and> v \<noteq> JNull \<and> v \<noteq> JStr []
         else if n = ''min'' then (case (v, p) of (JNum x, JStr q) \<Rightarrow> int (nat_of_string q) \<le> x | _ \<Rightarrow> False)
         else True),
      completesNow = (\<lambda>n v p a. if n = ''remote'' then None else Some True),
      customMessage = (\<lambda>n. JUndef),
      getValueType = (\<lambda>n a v. case v of JNum x \<Rightarrow> ''numeric'' | _ \<Rightarrow> ''string''),
      fill = (\<lambda>rule template. Inr template)\<rparr>"

definition sample_validator :: "jsval \<Rightarrow> (string \<times> jsval) list \<Rightarrow> Validator" where
  "sample_validator input' custom =
     \<lparr>input = input',
      messages = \<lparr>lang = ''en'', langMessages = [(''def'', JStr ''D'')],
                   customMessages = custom, attributeNames = []\<rparr>,
      errors = [], errorCount = 0, hasAsync = False, rules = [],
      stopOnAttributes = StopUndefined, ruleArrays = []\<rparr>"

text \<open>The validator of the input \<open>{name: ""}\<close> and the rules \<open>{name: "required"}\<close>.\<close>

definition named_required :: Validator where
  "named_required =
     (sample_validator (JObj [(''name'', JStr [])]) [])
       \<lparr>rules := [(''name'', [\<lparr>name = ''required'', rvalue = Own JUndef\<rparr>])]\<rparr>"

text \<open>
  A catalog in which \<open>min\<close> is registered as an implicit rule too, so that it runs on
  an absent value (and fails on it).
\<close>

definition strict_catalog :: Rules where
  "strict_catalog = sample_catalog\<lparr>isImplicit := (\<lambda>n. n = ''required'' \<or> n = ''min'')\<rparr>"


text \<open>A validator with the rules \<open>required|min:5\<close> on the absent attribute \<open>age\<close>, stopping on
  the first error.\<close>

definition age_required_min :: Validator where
  "age_required_min =
     (sample_validator (JObj [(''name'', JStr ''x'')]) [])
       \<lparr>rules := [(''age'', [\<lparr>name = ''required'', rvalue = Own JUndef\<rparr>,
                             \<lparr>name = ''min'', rvalue = Own (JStr ''5'')\<rparr>])],
        stopOnAttributes := StopBool True\<rparr>"

text \<open>The validator of the rules \<open>{name: "remote"}\<close>, an asynchronous rule.\<close>

definition remote_validator :: Validator where
  "remote_validator =
     (sample_validator (JObj [(''name'', JStr ''x'')]) [])
       \<lparr>rules := [(''name'', [\<lparr>name = ''remote'', rvalue = Own JUndef\<rparr>])], hasAsync := True\<rparr>"

text \<open>A rule instance, and a schedule of two checks: the second resolves while the
  checks are dispatched, the first after dispatch is complete, with a failure.\<close>

definition sample_rule :: Rule where
  "sample_rule = getRule sample_catalog ''remote'' ''name'' (JStr ''x'')"

definition sample_schedule :: "event list" where
  "sample_schedule =
     [Register sample_rule, Register sample_rule, Resolve 1 True, MarkDispatchComplete,
      Resolve 0 False]"

section \<open>Properties of the PathResolver\<close>

subsection \<open>The walk of \<open>_objectPath\<close>\<close>

















lemma set_insert_prop: "set (insert_prop kvs k v) = insert (k, v) (set kvs)"
proof (cases "index_of_key k")
  case None
  then show ?thesis by (simp add: insert_prop_def)
next
  case (Some n)
  have "set (takeWhile (\<lambda>kv. goes_before n (fst kv)) kvs) \<union> set (dropWhile (\<lambda>kv. goes_before n (fst kv)) kvs)
      = set kvs"
    by (metis set_append takeWhile_dropWhile_id)
  with Some show ?thesis by (auto simp: insert_prop_def)
qed

lemma set_obj_set: "set (obj_set kvs k v) \<subseteq> insert (k, v) (set kvs)"
  by (auto simp: obj_set_def set_insert_prop)




















lemma follow_object_key:
  "distinct (map fst kvs) \<Longrightarrow> (p, v) \<in> set kvs \<Longrightarrow> follow (JObj kvs) [p] = v"
  by simp

















section \<open>Properties of the message renderer\<close>

lemma select_template_custom_throws:
  "\<not> plain_table custom \<Longrightarrow> select_template custom msgs (f # fs) d = Inl TypeError"
  by (simp add: plain_table_def)

lemma select_template_step:
  "plain_table custom \<Longrightarrow>
   select_template custom msgs (f # fs) d =
     (case map_of custom f of
        Some t \<Rightarrow> Inr t
      | None \<Rightarrow>
          (if \<not> plain_table msgs then Inl TypeError
           else (case map_of msgs f of
                   Some t \<Rightarrow> Inr t
                 | None \<Rightarrow> select_template custom msgs fs d)))"
  by (auto simp: plain_table_def get_prop_def split: option.splits)

text \<open>
  C3, as stated, fails. A localized template for the attribute and the rule is taken
  before a custom message for the rule alone: with the custom message \<open>min\<close> and the
  localized template \<open>min.age\<close> both present, the rule \<open>min\<close> on \<open>age\<close> gets the
  localized template. And not every message configuration gives a template: the tables
  are asked through their own \<open>hasOwnProperty\<close>, so custom messages with a key
  \<open>hasOwnProperty\<close> make the renderer throw, whatever else they hold.
\<close>

theorem getTemplate_precedence_counterexample:
  "map_of [(''min'', JStr ''C'')] ''min'' = Some (JStr ''C'') \<and>
   map_of [(''min.age'', JStr ''L''), (''def'', JStr ''D'')] ''min.age'' = Some (JStr ''L'') \<and>
   getTemplate
     \<lparr>lang = ''en'', langMessages = [(''min.age'', JStr ''L''), (''def'', JStr ''D'')],
      customMessages = [(''min'', JStr ''C'')], attributeNames = []\<rparr>
     \<lparr>rule_name = ''min'', rule_attribute = ''age'', rule_customMessage = JUndef,
      rule_valueType = ''numeric''\<rparr>
   = Inr (JStr ''L'') \<and>
   getTemplate
     \<lparr>lang = ''en'', langMessages = [(''min.age'', JStr ''L''), (''def'', JStr ''D'')],
      customMessages = [(''min'', JStr ''C'')], attributeNames = []\<rparr>
     \<lparr>rule_name = ''min'', rule_attribute = ''age'', rule_customMessage = JUndef,
      rule_valueType = ''numeric''\<rparr>
   \<noteq> Inr (JStr ''C'') \<and>
   map_of [(''hasOwnProperty'', JStr ''H''), (''min.age'', JStr ''C'')] ''min.age'' = Some (JStr ''C'') \<and>
   getTemplate
     \<lparr>lang = ''en'', langMessages = [(''def'', JStr ''D'')],
      customMessages = [(''hasOwnProperty'', JStr ''H''), (''min.age'', JStr ''C'')],
      attributeNames = []\<rparr>
     \<lparr>rule_name = ''min'', rule_attribute = ''age'', rule_customMessage = JUndef,
      rule_valueType = ''numeric''\<rparr>
   = Inl TypeError"
  by (simp add: getTemplate_def formats_of_def default_template_def by_value_type_def get_prop_def)

text \<open>
  C3, amended. With \<open>attr_key\<close> the key \<open>rule.attribute\<close> (rule name, dot, attribute
  path) and \<open>rule_key\<close> the rule name, and for tables without a key \<open>hasOwnProperty\<close>
  of their own, the template is chosen in this order: (1) the custom message under
  \<open>attr_key\<close>, (2) the localized template under \<open>attr_key\<close>, (3) the custom message
  under \<open>rule_key\<close>, (4) the localized template under \<open>rule_key\<close>, (5) the default
  template \<open>def\<close>. A template that is a string is returned as it is. Custom messages
  with a key \<open>hasOwnProperty\<close> make the renderer throw, and so does a localized table
  with such a key as soon as it is consulted.
\<close>

theorem getTemplate_precedence:
  fixes m :: Messages and rule :: Rule
  defines "attr_key \<equiv> rule_name rule @ ''.'' @ rule_attribute rule"
    and "rule_key \<equiv> rule_name rule"
    and "custom \<equiv> customMessages m"
    and "localized \<equiv> langMessages m"
  shows
  "(\<forall>t. plain_table custom \<and> map_of custom attr_key = Some t
        \<longrightarrow> getTemplate m rule = by_value_type rule t) \<and>
   (\<forall>t. plain_table custom \<and> plain_table localized \<and>
        map_of custom attr_key = None \<and> map_of localized attr_key = Some t
        \<longrightarrow> getTemplate m rule = by_value_type rule t) \<and>
   (\<forall>t. plain_table custom \<and> plain_table localized \<and>
        map_of custom attr_key = None \<and> map_of localized attr_key = None \<and>
        map_of custom rule_key = Some t
        \<longrightarrow> getTemplate m rule = by_value_type rule t) \<and>
   (\<forall>t. plain_table custom \<and> plain_table localized \<and>
        map_of custom attr_key = None \<and> map_of localized attr_key = None \<and>
        map_of custom rule_key = None \<and> map_of localized rule_key = Some t
        \<longrightarrow> getTemplate m rule = by_value_type rule t) \<and>
   (plain_table custom \<and> plain_table localized \<and>
    map_of custom attr_key = None \<and> map_of localized attr_key = None \<and>
    map_of custom rule_key = None \<and> map_of localized rule_key = None
        \<longrightarrow> getTemplate m rule = by_value_type rule (default_template m)) \<and>
   (\<forall>s. \<not> typeof_object (JStr s) \<and> by_value_type rule (JStr s) = Inr (JStr s)) \<and>
   (\<not> plain_table custom \<longrightarrow> getTemplate m rule = Inl TypeError) \<and>
   (plain_table custom \<and> map_of custom attr_key = None \<and> \<not> plain_table localized
        \<longrightarrow> getTemplate m rule = Inl TypeError)"
proof -
  have thrown: "\<not> plain_table custom \<Longrightarrow> getTemplate m rule = Inl TypeError"
    by (simp add: getTemplate_def formats_of_def custom_def select_template_custom_throws
        del: select_template.simps)
  have sel: "plain_table custom \<Longrightarrow>
    select_template custom localized (formats_of rule) (default_template m) =
     (case map_of custom attr_key of
        Some t \<Rightarrow> Inr t
      | None \<Rightarrow>
          (if \<not> plain_table localized then Inl TypeError
           else (case map_of localized attr_key of
                   Some t \<Rightarrow> Inr t
                 | None \<Rightarrow>
                     (case map_of custom rule_key of
                        Some t \<Rightarrow> Inr t
                      | None \<Rightarrow>
                          (case map_of localized rule_key of
                             Some t \<Rightarrow> Inr t
                           | None \<Rightarrow> Inr (default_template m))))))"
    by (simp add: formats_of_def select_template_step attr_key_def rule_key_def
        del: select_template.simps(2) split: option.splits)
  have gt: "getTemplate m rule =
      (case select_template custom localized (formats_of rule) (default_template m) of
         Inl e \<Rightarrow> Inl e | Inr template \<Rightarrow> by_value_type rule template)"
    by (simp add: getTemplate_def custom_def localized_def)
  show ?thesis
    using thrown by (auto simp: gt sel by_value_type_def)
qed

theorem getTemplate_precedence_witness:
  "getTemplate
     \<lparr>lang = ''en'', langMessages = [(''min.age'', JStr ''L''), (''def'', JStr ''D'')],
      customMessages = [(''min'', JStr ''C'')], attributeNames = []\<rparr>
     \<lparr>rule_name = ''min'', rule_attribute = ''age'', rule_customMessage = JUndef,
      rule_valueType = ''numeric''\<rparr>
   = Inr (JStr ''L'') \<and>
   getTemplate
     \<lparr>lang = ''en'', langMessages = [(''min.age'', JStr ''L''), (''def'', JStr ''D'')],
      customMessages = [(''min'', JStr ''C'')], attributeNames = []\<rparr>
     \<lparr>rule_name = ''min'', rule_attribute = ''size'', rule_customMessage = JUndef,
      rule_valueType = ''numeric''\<rparr>
   = Inr (JStr ''C'') \<and>
   getTemplate
     \<lparr>lang = ''en'', langMessages = [(''min.age'', JStr ''L''), (''def'', JStr ''D'')],
      customMessages = [(''min'', JStr ''C'')], attributeNames = []\<rparr>
     \<lparr>rule_name = ''max'', rule_attribute = ''age'', rule_customMessage = JUndef,
      rule_valueType = ''numeric''\<rparr>
   = Inr (JStr ''D'') \<and>
   getTemplate
     \<lparr>lang = ''en'', langMessages = [(''hasOwnProperty'', JStr ''H''), (''def'', JStr ''D'')],
      customMessages = [(''min'', JStr ''C'')], attributeNames = []\<rparr>
     \<lparr>rule_name = ''min'', rule_attribute = ''age'', rule_customMessage = JUndef,
      rule_valueType = ''numeric''\<rparr>
   = Inl TypeError"
proof -
  let ?m = "\<lparr>lang = ''en'', langMessages = [(''min.age'', JStr ''L''), (''def'', JStr ''D'')],
      customMessages = [(''min'', JStr ''C'')], attributeNames = []\<rparr>"
  let ?h = "\<lparr>lang = ''en'', langMessages = [(''hasOwnProperty'', JStr ''H''), (''def'', JStr ''D'')],
      customMessages = [(''min'', JStr ''C'')], attributeNames = []\<rparr>"
  let ?r1 = "\<lparr>rule_name = ''min'', rule_attribute = ''age'', rule_customMessage = JUndef,
      rule_valueType = ''numeric''\<rparr>"
  let ?r2 = "\<lparr>rule_name = ''min'', rule_attribute = ''size'', rule_customMessage = JUndef,
      rule_valueType = ''numeric''\<rparr>"
  let ?r3 = "\<lparr>rule_name = ''max'', rule_attribute = ''age'', rule_customMessage = JUndef,
      rule_valueType = ''numeric''\<rparr>"
  have "getTemplate ?m ?r1 = by_value_type ?r1 (JStr ''L'')"
    using getTemplate_precedence[of ?m ?r1] by (simp add: plain_table_def)
  moreover have "getTemplate ?m ?r2 = by_value_type ?r2 (JStr ''C'')"
    using getTemplate_precedence[of ?m ?r2] by (simp add: plain_table_def)
  moreover have "getTemplate ?m ?r3 = by_value_type ?r3 (default_template ?m)"
    using getTemplate_precedence[of ?m ?r3] by (simp add: plain_table_def)
  moreover have "getTemplate ?h ?r1 = Inl TypeError"
    using getTemplate_precedence[of ?h ?r1] by (simp add: plain_table_def)
  ultimately show ?thesis by (simp add: by_value_type_def default_template_def)
qed

section \<open>Properties of the RuleNormalizer\<close>

subsection \<open>Indices are told apart by their decimal form\<close>







subsection \<open>A replaced star leaves a digit\<close>











subsection \<open>Assignments to new keys\<close>

lemma keys_insert_prop: "fst ` set (insert_prop kvs k v) = insert k (fst ` set kvs)"
  by (simp add: set_insert_prop)





subsection \<open>Parsing under a binding\<close>


lemma fold_star_step_string:
  "fold_err star_step ws (JStr s) = Inr (JStr (foldl replace_star s ws))"
  by (induction ws arbitrary: s) (simp_all add: star_step_def)

lemma replaceWildCards_string:
  "replaceWildCards (Own (JStr s)) (Some ws) written
     = Inr (Own (JStr (foldl replace_star s ws)), written)"
  by (simp add: replaceWildCards_def fold_star_step_string)

lemma replaceWildCards_key_same:
  "replaceWildCards (Own (JStr key)) nums written
     = Inr (Own (JStr (replaceWildCards_key key nums)), written)"
  by (cases nums) (simp_all add: replaceWildCards_string, simp add: replaceWildCards_def)

lemma extract_string_or_falsy: "own_string_or_falsy (rvalue (extractRuleAndRuleValue s))"
  by (simp add: extractRuleAndRuleValue_def Let_def)

lemma bindable_item_rule: "bindable item \<Longrightarrow> own_string_or_falsy (rvalue (item_rule item))"
  by (cases item) (simp_all add: extract_string_or_falsy)






subsection \<open>Expansion of a wildcard path\<close>

lemma string_of_nat_digits [simp]:
  "string_of_nat 0 = ''0''" "string_of_nat 1 = ''1''" "string_of_nat 2 = ''2''"
  "string_of_nat (Suc 0) = ''1''" "string_of_nat (Suc (Suc 0)) = ''2''"
  by (simp_all add: string_of_nat.simps digit_char_def)

lemma upt_small: "[0..<2] = [0, 1]" "[0..<3] = [0, 1, 2]" "[0..<1] = [0]"
  by (simp_all add: upt_rec)





subsection \<open>Custom messages under a binding\<close>










lemma rebound_message_end_to_end:
  "map_sum id (\<lambda>v. getTemplate (messages v)
                        \<lparr>rule_name = ''min'', rule_attribute = ''items.2.qty'',
                         rule_customMessage = JUndef, rule_valueType = ''numeric''\<rparr>)
     (new_Validator sample_catalog [(''def'', JStr ''D'')]
        (JObj [(''items'', JArr [JObj [(''qty'', JNum 0)], JObj [(''qty'', JNum 5)], JObj [(''qty'', JNum 0)]])])
        (JObj [(''items.*.qty'', JStr ''min:1'')])
        [(''min.items.*.qty'', JStr ''M'')])
   = Inr (Inr (JStr ''M''))"
  by code_simp

section \<open>Properties of the entry points\<close>

subsection \<open>Asynchronous rules are marked while parsing\<close>

lemma fold_err_invariant:
  assumes "P s" and "fold_err f xs s = Inr s'"
    and "\<And>x u u'. x \<in> set xs \<Longrightarrow> P u \<Longrightarrow> f x u = Inr u' \<Longrightarrow> P u'"
  shows "P s'"
  using assms
proof (induction xs arbitrary: s)
  case Nil
  then show ?case by simp
next
  case (Cons x xs)
  from Cons.prems(2) obtain u where fx: "f x s = Inr u" and rest: "fold_err f xs u = Inr s'"
    by (auto split: sum.splits)
  have pu: "P u" using Cons.prems(3)[of x s u] Cons.prems(1) fx by simp
  show ?case
  proof (rule Cons.IH[OF pu rest])
    fix y w w'
    assume "y \<in> set xs" and "P w" and "f y w = Inr w'"
    then show "P w'" using Cons.prems(3)[of y w w'] by simp
  qed
qed

lemma parse_rule_async:
  assumes "async_collected reg before st" and "parse_rule reg w rule st = Inr st'"
  shows "async_collected reg before st'"
proof -
  obtain acc v where st: "st = (acc, v)" by (cases st)
  from assms(2) st obtain rule' v1 where
    mid: "(if truthy (param_value (ruleArrays v) (rvalue rule))
            then (case replaceWildCards (rvalue rule) w (ruleArrays v) of
                    Inl e \<Rightarrow> Inl e
                  | Inr (value', written') \<Rightarrow>
                      Inr (rule\<lparr>rvalue := value'\<rparr>,
                           v\<lparr>ruleArrays := written',
                             messages := replaceWildCardsMessages w (messages v)\<rparr>))
            else Inr (rule, v)) = Inr (rule', v1)"
    and res: "st' = (acc @ [rule'], (if isAsync reg (name rule') then v1\<lparr>hasAsync := True\<rparr> else v1))"
    by (auto simp: parse_rule_def split: sum.splits prod.splits)
  from mid have h: "hasAsync v1 = hasAsync v"
    by (auto split: if_splits sum.splits)
  from assms(1) st h res show ?thesis by (auto simp: async_collected_def)
qed

lemma parse_item_async:
  assumes "async_collected reg before st" and "parse_item reg w item st = Inr st'"
  shows "async_collected reg before st'"
  using assms by (cases item) (auto dest: parse_rule_async)

lemma parseRulesDefault_async:
  assumes "async_marked reg st" and "parseRulesDefault reg origin attribute rulesArray w st = Inr st'"
  shows "async_marked reg st'"
proof -
  obtain parsed v where st: "st = (parsed, v)" by (cases st)
  from assms(2) st obtain items rs v' where
    fo: "fold_err (parse_item reg w) items ([], v) = Inr (rs, v')"
    and res: "st' = (obj_set parsed attribute rs, v')"
    by (auto simp: parseRulesDefault_def split: sum.splits prod.splits)
  have "async_collected reg (hasAsync v) ([], v)" by (simp add: async_collected_def)
  from fold_err_invariant[where P = "async_collected reg (hasAsync v)", OF this fo]
  have col: "async_collected reg (hasAsync v) (rs, v')"
    using parse_item_async by blast
  show ?thesis
    unfolding async_marked_def res
  proof (clarsimp)
    fix a rs' r
    assume mem: "(a, rs') \<in> set (obj_set parsed attribute rs)" and r: "r \<in> set rs'"
      and as: "isAsync reg (name r)"
    from mem set_obj_set[of parsed attribute rs]
    have "(a, rs') = (attribute, rs) \<or> (a, rs') \<in> set parsed" by blast
    then show "hasAsync v'"
    proof
      assume "(a, rs') = (attribute, rs)"
      with r as col show ?thesis by (auto simp: async_collected_def)
    next
      assume "(a, rs') \<in> set parsed"
      with r as assms(1) st have "hasAsync v" by (auto simp: async_marked_def)
      with col show ?thesis by (simp add: async_collected_def)
    qed
  qed
qed

lemma parseRulesCheck_async:
  "async_marked reg st \<Longrightarrow> parseRulesCheck reg origin attribute rulesArray w st = Inr st'
     \<Longrightarrow> async_marked reg st'"
  and parsedRulesRecurse_async:
  "async_marked reg st \<Longrightarrow> parsedRulesRecurse reg origin attribute rulesArray w st = Inr st'
     \<Longrightarrow> async_marked reg st'"
proof (induction reg origin attribute rulesArray w st and reg origin attribute rulesArray w st
       arbitrary: st' and st' rule: parseRulesCheck_parsedRulesRecurse.induct)
  case (1 reg origin attribute rulesArray wildCardValues st)
  show ?case
  proof (cases "CHR ''*'' \<in> set attribute")
    case True
    with "1.prems" "1.IH" show ?thesis by (simp add: parseRulesCheck.simps)
  next
    case False
    with "1.prems" show ?thesis
      by (simp add: parseRulesCheck.simps parseRulesDefault_async)
  qed
next
  case (2 reg origin attribute rulesArray wildCardValues st)
  from "2.prems"(2) obtain propertyValue where
    op: "objectPath (input (snd st)) (parentPath_of attribute) = Inr propertyValue"
    by (auto simp: parsedRulesRecurse.simps split: sum.splits)
  show ?case
  proof (cases "truthy propertyValue")
    case False
    with op "2.prems" show ?thesis by (simp add: parsedRulesRecurse.simps)
  next
    case True
    with op "2.prems"(2) obtain n where
      lc: "loop_count propertyValue = Inr n"
      and fo: "fold_err
                 (\<lambda>propertyNumber.
                    parseRulesCheck reg origin (replace_star attribute propertyNumber) rulesArray
                      (Some (workingValues_of wildCardValues propertyNumber)))
                 [0..<n] st = Inr st'"
      by (auto simp: parsedRulesRecurse.simps split: sum.splits)
    show ?thesis
    proof (rule fold_err_invariant[where P = "async_marked reg", OF "2.prems"(1) fo])
      fix x u u'
      assume "x \<in> set [0..<n]" and "async_marked reg u"
        and "parseRulesCheck reg origin (replace_star attribute x) rulesArray
               (Some (workingValues_of wildCardValues x)) u = Inr u'"
      then show "async_marked reg u'"
        using "2.IH"[OF op True lc] by blast
    qed
  qed
qed

lemma new_Validator_async:
  assumes "new_Validator reg langTable input' rules' custom = Inr v"
    and "(attribute, rs) \<in> set (rules v)" and "r \<in> set rs" and "isAsync reg (name r)"
  shows "hasAsync v"
proof -
  let ?v0 = "\<lparr>input = (if truthy input' then input' else JObj []),
               messages = \<lparr>lang = ''en'', langMessages = langTable,
                            customMessages = custom, attributeNames = []\<rparr>,
               errors = [], errorCount = 0, hasAsync = False, rules = [],
               stopOnAttributes = StopUndefined, ruleArrays = []\<rparr>"
  from assms(1) obtain parsed v' where pr: "parseRules reg rules' ?v0 = Inr (parsed, v')"
    and v: "v = v'\<lparr>rules := parsed\<rparr>"
    by (auto simp: new_Validator_def Let_def split: sum.splits prod.splits)
  from pr obtain flat where
    fo: "fold_err (\<lambda>(attribute, rulesArray). parseRulesCheck reg attribute attribute rulesArray None)
            flat ([], ?v0) = Inr (parsed, v')"
    by (auto simp: parseRules_def split: sum.splits)
  have start: "async_marked reg ([], ?v0)" by (simp add: async_marked_def)
  have "async_marked reg (parsed, v')"
  proof (rule fold_err_invariant[where P = "async_marked reg", OF start fo])
    fix x :: "string \<times> jsval" and u u'
    assume "async_marked reg u"
      and "(case x of (attribute, rulesArray) \<Rightarrow> parseRulesCheck reg attribute attribute rulesArray None) u = Inr u'"
    then show "async_marked reg u'"
      by (cases x) (auto dest: parseRulesCheck_async)
  qed
  with assms(2-4) v show ?thesis by (auto simp: async_marked_def)
qed

lemma remote_validator_built:
  "new_Validator sample_catalog [(''def'', JStr ''D'')] (JObj [(''name'', JStr ''x'')])
     (JObj [(''name'', JStr ''remote'')]) [] = Inr remote_validator"
  by code_simp

text \<open>
  C8. For a validator built by the constructor whose parsed rules hold a rule of an
  asynchronous name, \<open>passes\<close> and \<open>fails\<close> called without a function as callback
  throw the usage error at once: the result is the error, and neither \<open>check\<close> nor
  \<open>checkAsync\<close> has run.
\<close>

theorem sync_entry_needs_callback:
  assumes "new_Validator reg langTable input' rules' custom = Inr v"
    and "(attribute, rs) \<in> set (rules v)" and "r \<in> set rs" and "isAsync reg (name r)"
    and "\<not> is_function callback"
  shows "passes reg v callback
           = Inl (UsageError ''passes expects a callback when async rules are being tested.'') \<and>
         fails reg v callback
           = Inl (UsageError ''fails expects a callback when async rules are being tested.'')"
proof -
  have "hasAsync v" using assms(1-4) by (rule new_Validator_async)
  with assms(5) show ?thesis
    by (simp add: passes_def fails_def guard_checkAsync_def)
qed

theorem sync_entry_needs_callback_witness:
  "passes sample_catalog remote_validator (Val JUndef)
     = Inl (UsageError ''passes expects a callback when async rules are being tested.'') \<and>
   fails sample_catalog remote_validator (Val JUndef)
     = Inl (UsageError ''fails expects a callback when async rules are being tested.'')"
proof (rule sync_entry_needs_callback[OF remote_validator_built])
  show "(''name'', [\<lparr>name = ''remote'', rvalue = Own JUndef\<rparr>]) \<in> set (rules remote_validator)"
    by (simp add: remote_validator_def)
  show "\<lparr>name = ''remote'', rvalue = Own JUndef\<rparr> \<in> set [\<lparr>name = ''remote'', rvalue = Own JUndef\<rparr>]"
    by simp
  show "isAsync sample_catalog (name \<lparr>name = ''remote'', rvalue = Own JUndef\<rparr>)"
    by (simp add: sample_catalog_def)
  show "\<not> is_function (Val JUndef)" by simp
qed

subsection \<open>The failures of a run do not depend on the collector\<close>

lemma addFailure_log:
  "addFailure reg rule (v\<lparr>errors := e, errorCount := c\<rparr>)
     = (case render (fill reg) (messages v) rule of
          Inl err \<Rightarrow> Inl err
        | Inr msg \<Rightarrow> Inr (v\<lparr>errors := e @ [(rule_attribute rule, msg)], errorCount := c + 1\<rparr>))"
  by (simp add: addFailure_def errors_add_def split: sum.splits)

lemma shouldStopValidating_log [simp]:
  "shouldStopValidating (v\<lparr>errors := e, errorCount := c\<rparr>) attribute rulePassed
     = shouldStopValidating v attribute rulePassed"
  by (simp add: shouldStopValidating_def)

lemma check_rules_log:
  "check_rules reg attribute inputValue rs v = Inr v' \<Longrightarrow>
   \<exists>fs. (\<forall>e c. check_rules reg attribute inputValue rs (v\<lparr>errors := e, errorCount := c\<rparr>)
                 = Inr (v\<lparr>errors := e @ fs, errorCount := c + length fs\<rparr>))
        \<and> (\<forall>f\<in>set fs. fst f = attribute)"
proof (induction rs arbitrary: v v')
  case Nil
  have "\<forall>e c. check_rules reg attribute inputValue [] (v\<lparr>errors := e, errorCount := c\<rparr>)
                 = Inr (v\<lparr>errors := e @ [], errorCount := c + length ([] :: (string \<times> jsval) list)\<rparr>)"
    by simp
  then show ?case by (intro exI[of _ "[]"]) simp
next
  case (Cons ruleOptions rest)
  show ?case
  proof (cases "isValidatable reg (name ruleOptions) inputValue")
    case False
    with Cons.prems have "check_rules reg attribute inputValue rest v = Inr v'" by simp
    from Cons.IH[OF this] False show ?thesis by simp
  next
    case True
    let ?passed = "validate reg (name ruleOptions) inputValue
                     (param_value (ruleArrays v) (rvalue ruleOptions)) (JStr attribute)"
    let ?rule = "getRule reg (name ruleOptions) attribute inputValue"
    show ?thesis
    proof (cases ?passed)
      case passed: True
      then have nostop: "\<And>u. \<not> shouldStopValidating u attribute ?passed"
        by (simp add: shouldStopValidating_def)
      from Cons.prems True passed nostop
      have "check_rules reg attribute inputValue rest v = Inr v'" by (simp add: Let_def)
      from Cons.IH[OF this] obtain fs where
        fs: "\<forall>e c. check_rules reg attribute inputValue rest (v\<lparr>errors := e, errorCount := c\<rparr>)
                 = Inr (v\<lparr>errors := e @ fs, errorCount := c + length fs\<rparr>)"
          "\<forall>f\<in>set fs. fst f = attribute" by blast
      have "\<forall>e c. check_rules reg attribute inputValue (ruleOptions # rest) (v\<lparr>errors := e, errorCount := c\<rparr>)
                 = Inr (v\<lparr>errors := e @ fs, errorCount := c + length fs\<rparr>)"
        using True passed nostop fs(1) by (simp add: Let_def)
      with fs(2) show ?thesis by blast
    next
      case failed: False
      from Cons.prems True failed obtain msg where
        msg: "render (fill reg) (messages v) ?rule = Inr msg"
        by (auto simp: Let_def addFailure_def errors_add_def split: sum.splits)
      let ?v1 = "v\<lparr>errors := errors v @ [(attribute, msg)], errorCount := errorCount v + 1\<rparr>"
      have attr: "rule_attribute ?rule = attribute" by (simp add: getRule_def)
      have add: "addFailure reg ?rule v = Inr ?v1"
        using msg attr by (simp add: addFailure_def errors_add_def)
      show ?thesis
      proof (cases "shouldStopValidating v attribute False")
        case True
        have "\<forall>e c. check_rules reg attribute inputValue (ruleOptions # rest) (v\<lparr>errors := e, errorCount := c\<rparr>)
                 = Inr (v\<lparr>errors := e @ [(attribute, msg)], errorCount := c + length [(attribute, msg)]\<rparr>)"
          using \<open>isValidatable reg (name ruleOptions) inputValue\<close> failed msg attr True
          by (simp add: Let_def addFailure_log)
        then show ?thesis by (intro exI[of _ "[(attribute, msg)]"]) simp
      next
        case False
        then have ns: "\<not> shouldStopValidating ?v1 attribute False"
          by simp
        from Cons.prems \<open>isValidatable reg (name ruleOptions) inputValue\<close> failed add ns
        have "check_rules reg attribute inputValue rest ?v1 = Inr v'" by (simp add: Let_def)
        from Cons.IH[OF this] obtain fs where
          fs: "\<forall>e c. check_rules reg attribute inputValue rest (?v1\<lparr>errors := e, errorCount := c\<rparr>)
                 = Inr (?v1\<lparr>errors := e @ fs, errorCount := c + length fs\<rparr>)"
            "\<forall>f\<in>set fs. fst f = attribute" by blast
        have "\<forall>e c. check_rules reg attribute inputValue (ruleOptions # rest) (v\<lparr>errors := e, errorCount := c\<rparr>)
                 = Inr (v\<lparr>errors := e @ ((attribute, msg) # fs), errorCount := c + length ((attribute, msg) # fs)\<rparr>)"
        proof (intro allI)
          fix e c
          have "check_rules reg attribute inputValue (ruleOptions # rest) (v\<lparr>errors := e, errorCount := c\<rparr>)
              = check_rules reg attribute inputValue rest
                  (v\<lparr>errors := e @ [(attribute, msg)], errorCount := c + 1\<rparr>)"
            using \<open>isValidatable reg (name ruleOptions) inputValue\<close> failed msg attr False
            by (simp add: Let_def addFailure_log)
          also have "\<dots> = Inr (v\<lparr>errors := (e @ [(attribute, msg)]) @ fs, errorCount := (c + 1) + length fs\<rparr>)"
            using fs(1) by simp
          finally show "check_rules reg attribute inputValue (ruleOptions # rest) (v\<lparr>errors := e, errorCount := c\<rparr>)
              = Inr (v\<lparr>errors := e @ ((attribute, msg) # fs), errorCount := c + length ((attribute, msg) # fs)\<rparr>)"
            by simp
        qed
        with fs(2) show ?thesis by (intro exI[of _ "(attribute, msg) # fs"]) simp
      qed
    qed
  qed
qed

lemma applicable_log [simp]:
  "rules_at (v\<lparr>errors := e, errorCount := c\<rparr>) attribute = rules_at v attribute"
  "hasRule (v\<lparr>errors := e, errorCount := c\<rparr>) attribute findRules = hasRule v attribute findRules"
  "suppliedWithData (v\<lparr>errors := e, errorCount := c\<rparr>) attribute = suppliedWithData v attribute"
  "skipped (v\<lparr>errors := e, errorCount := c\<rparr>) attribute = skipped v attribute"
  by (simp_all add: rules_at_def hasRule_def suppliedWithData_def skipped_def)

lemma log_same: "(v :: Validator)\<lparr>errors := errors v, errorCount := errorCount v\<rparr> = v"
  by simp

lemma check_attribute_log:
  assumes "check_attribute reg attribute v = Inr v'"
  shows "\<exists>fs. (\<forall>e c. check_attribute reg attribute (v\<lparr>errors := e, errorCount := c\<rparr>)
                 = Inr (v\<lparr>errors := e @ fs, errorCount := c + length fs\<rparr>))
        \<and> (\<forall>f\<in>set fs. fst f = attribute)"
proof -
  from assms obtain inputValue where op: "objectPath (input v) attribute = Inr inputValue"
    by (auto simp: check_attribute_def split: sum.splits)
  from assms op obtain skip where sk: "skipped v attribute = Inr skip"
    by (cases "skipped v attribute") (simp_all add: check_attribute_def)
  show ?thesis
  proof (cases skip)
    case True
    with op sk have "\<forall>e c. check_attribute reg attribute (v\<lparr>errors := e, errorCount := c\<rparr>)
                 = Inr (v\<lparr>errors := e @ [], errorCount := c + length ([] :: (string \<times> jsval) list)\<rparr>)"
      by (simp add: check_attribute_def)
    then show ?thesis by (intro exI[of _ "[]"]) simp
  next
    case False
    with op sk assms have "check_rules reg attribute inputValue (rules_at v attribute) v = Inr v'"
      by (simp add: check_attribute_def)
    from check_rules_log[OF this] obtain fs where
      fs: "\<forall>e c. check_rules reg attribute inputValue (rules_at v attribute) (v\<lparr>errors := e, errorCount := c\<rparr>)
                 = Inr (v\<lparr>errors := e @ fs, errorCount := c + length fs\<rparr>)"
        "\<forall>f\<in>set fs. fst f = attribute" by blast
    have "\<forall>e c. check_attribute reg attribute (v\<lparr>errors := e, errorCount := c\<rparr>)
                 = Inr (v\<lparr>errors := e @ fs, errorCount := c + length fs\<rparr>)"
      using op sk False fs(1) by (simp add: check_attribute_def)
    with fs(2) show ?thesis by blast
  qed
qed

lemma log_update_inject:
  "(v :: Validator)\<lparr>errors := e @ fs, errorCount := c\<rparr> = v\<lparr>errors := e @ fs', errorCount := c'\<rparr>
   \<Longrightarrow> fs = fs'"
proof -
  assume "v\<lparr>errors := e @ fs, errorCount := c\<rparr> = v\<lparr>errors := e @ fs', errorCount := c'\<rparr>"
  then have "errors (v\<lparr>errors := e @ fs, errorCount := c\<rparr>) = errors (v\<lparr>errors := e @ fs', errorCount := c'\<rparr>)"
    by simp
  then show ?thesis by simp
qed

lemma check_fold_log:
  assumes "fold_err (check_attribute reg) attrs v = Inr v'"
    and "distinct attrs"
    and "\<forall>e c. check_attribute reg attribute (v\<lparr>errors := e, errorCount := c\<rparr>)
                 = Inr (v\<lparr>errors := e @ fa, errorCount := c + length fa\<rparr>)"
    and "\<forall>f\<in>set fa. fst f = attribute"
  shows "\<exists>fs. (\<forall>e c. fold_err (check_attribute reg) attrs (v\<lparr>errors := e, errorCount := c\<rparr>)
                 = Inr (v\<lparr>errors := e @ fs, errorCount := c + length fs\<rparr>))
        \<and> filter (\<lambda>f. fst f = attribute) fs = (if attribute \<in> set attrs then fa else [])"
  using assms
proof (induction attrs arbitrary: v v')
  case Nil
  have "\<forall>e c. fold_err (check_attribute reg) [] (v\<lparr>errors := e, errorCount := c\<rparr>)
                 = Inr (v\<lparr>errors := e @ [], errorCount := c + length ([] :: (string \<times> jsval) list)\<rparr>)"
    by simp
  then show ?case by (intro exI[of _ "[]"]) simp
next
  case (Cons a attrs)
  from Cons.prems(1) obtain u where cu: "check_attribute reg a v = Inr u"
    and rest: "fold_err (check_attribute reg) attrs u = Inr v'"
    by (auto split: sum.splits)
  from check_attribute_log[OF cu] obtain fs1 where
    fs1: "\<forall>e c. check_attribute reg a (v\<lparr>errors := e, errorCount := c\<rparr>)
                 = Inr (v\<lparr>errors := e @ fs1, errorCount := c + length fs1\<rparr>)"
      "\<forall>f\<in>set fs1. fst f = a" by blast
  have u: "u = v\<lparr>errors := errors v @ fs1, errorCount := errorCount v + length fs1\<rparr>"
    using fs1(1)[rule_format, where e = "errors v" and c = "errorCount v"] cu by (simp add: log_same)
  have d: "distinct attrs" using Cons.prems(2) by simp
  have pa: "\<forall>e c. check_attribute reg attribute (u\<lparr>errors := e, errorCount := c\<rparr>)
                 = Inr (u\<lparr>errors := e @ fa, errorCount := c + length fa\<rparr>)"
    using Cons.prems(3) by (simp add: u)
  from Cons.IH[OF rest d pa Cons.prems(4)] obtain fs2 where
    fs2: "\<forall>e c. fold_err (check_attribute reg) attrs (u\<lparr>errors := e, errorCount := c\<rparr>)
                 = Inr (u\<lparr>errors := e @ fs2, errorCount := c + length fs2\<rparr>)"
      "filter (\<lambda>f. fst f = attribute) fs2 = (if attribute \<in> set attrs then fa else [])" by blast
  have all: "\<forall>e c. fold_err (check_attribute reg) (a # attrs) (v\<lparr>errors := e, errorCount := c\<rparr>)
                 = Inr (v\<lparr>errors := e @ (fs1 @ fs2), errorCount := c + length (fs1 @ fs2)\<rparr>)"
  proof (intro allI)
    fix e c
    have "fold_err (check_attribute reg) (a # attrs) (v\<lparr>errors := e, errorCount := c\<rparr>)
        = fold_err (check_attribute reg) attrs (v\<lparr>errors := e @ fs1, errorCount := c + length fs1\<rparr>)"
      using fs1(1) by simp
    also have "\<dots> = Inr (v\<lparr>errors := (e @ fs1) @ fs2, errorCount := (c + length fs1) + length fs2\<rparr>)"
      using fs2(1) by (simp add: u)
    finally show "fold_err (check_attribute reg) (a # attrs) (v\<lparr>errors := e, errorCount := c\<rparr>)
        = Inr (v\<lparr>errors := e @ (fs1 @ fs2), errorCount := c + length (fs1 @ fs2)\<rparr>)"
      by (simp add: add.assoc)
  qed
  have "filter (\<lambda>f. fst f = attribute) (fs1 @ fs2) = (if attribute \<in> set (a # attrs) then fa else [])"
  proof (cases "a = attribute")
    case True
    have "v\<lparr>errors := [] @ fs1, errorCount := 0 + length fs1\<rparr> = v\<lparr>errors := [] @ fa, errorCount := 0 + length fa\<rparr>"
      using fs1(1)[rule_format, where e = "[]" and c = 0] Cons.prems(3)[rule_format, where e = "[]" and c = 0] True by simp
    then have "fs1 = fa" by (rule log_update_inject)
    moreover have "attribute \<notin> set attrs" using True Cons.prems(2) by simp
    moreover have "filter (\<lambda>f. fst f = attribute) fa = fa"
      using Cons.prems(4) by (simp add: filter_id_conv)
    ultimately show ?thesis using fs2(2) True by simp
  next
    case False
    then have "filter (\<lambda>f. fst f = attribute) fs1 = []"
      using fs1(2) by (auto simp: filter_empty_conv)
    with fs2(2) False show ?thesis by simp
  qed
  with all show ?case by blast
qed



subsection \<open>Sample runs\<close>

lemma sample_template:
  "getTemplate (messages (sample_validator input' [])) rule = Inr (JStr ''D'')"
proof -
  have "select_template [] [(''def'', JStr ''D'')] fs (JStr ''D'') = Inr (JStr ''D'')" for fs
    by (induction fs) (simp_all add: get_prop_def)
  then show ?thesis
    by (simp add: getTemplate_def default_template_def by_value_type_def sample_validator_def)
qed

lemma render_sample:
  "render (fill sample_catalog) (messages (sample_validator input' [])) rule
     = Inr (if truthy (rule_customMessage rule) then rule_customMessage rule else JStr ''D'')"
  by (simp add: render_def sample_template) (simp add: sample_catalog_def)

lemma named_required_built:
  "new_Validator sample_catalog [(''def'', JStr ''D'')] (JObj [(''name'', JStr [])])
     (JObj [(''name'', JStr ''required'')]) [] = Inr named_required"
  by code_simp

lemma check_named_required:
  "check sample_catalog (named_required\<lparr>errors := e, errorCount := c\<rparr>)
     = Inr (False, named_required\<lparr>errors := e @ [(''name'', JStr ''D'')], errorCount := c + 1\<rparr>)"
proof -
  let ?v = "named_required\<lparr>errors := e, errorCount := c\<rparr>"
  let ?rule = "getRule sample_catalog ''required'' ''name'' (JStr [])"
  have m: "messages named_required = messages (sample_validator (JObj [(''name'', JStr [])]) [])"
    by (simp add: named_required_def)
  have cm: "\<not> truthy (rule_customMessage ?rule)" by (simp add: getRule_def sample_catalog_def)
  have r: "render (fill sample_catalog) (messages named_required) ?rule = Inr (JStr ''D'')"
    using cm by (simp only: m render_sample if_False)
  have at: "rule_attribute ?rule = ''name''" by (simp add: getRule_def)
  have op: "objectPath (input named_required) ''name'' = Inr (JStr [])" by code_simp
  have sk: "skipped named_required ''name'' = Inr False" by code_simp
  have ra: "rules_at named_required ''name'' = [\<lparr>name = ''required'', rvalue = Own JUndef\<rparr>]"
    by code_simp
  have val: "isValidatable sample_catalog ''required'' (JStr [])"
    by (simp add: isValidatable_def sample_catalog_def)
  have fail: "\<not> validate sample_catalog ''required'' (JStr []) JUndef (JStr ''name'')"
    by (simp add: sample_catalog_def)
  have ns: "\<not> shouldStopValidating named_required ''name'' False" by code_simp
  have "check_rules sample_catalog ''name'' (JStr []) [\<lparr>name = ''required'', rvalue = Own JUndef\<rparr>] ?v
      = Inr (named_required\<lparr>errors := e @ [(''name'', JStr ''D'')], errorCount := c + 1\<rparr>)"
    using val fail ns by (simp add: addFailure_log r at Let_def)
  then have "check_attribute sample_catalog ''name'' ?v
      = Inr (named_required\<lparr>errors := e @ [(''name'', JStr ''D'')], errorCount := c + 1\<rparr>)"
    by (simp add: check_attribute_def op sk ra)
  moreover have "map fst (rules named_required) = [''name'']" by code_simp
  ultimately show ?thesis by (simp add: check_def)
qed

subsection \<open>Running \<open>check\<close> twice\<close>









subsection \<open>Stopping at the first failure\<close>

lemma check_fold_reaches:
  assumes "fold_err (check_attribute reg) attrs v = Inr v'" and "a \<in> set attrs"
  shows "\<exists>e c w. check_attribute reg a (v\<lparr>errors := e, errorCount := c\<rparr>) = Inr w"
  using assms
proof (induction attrs arbitrary: v)
  case Nil
  then show ?case by simp
next
  case (Cons x attrs)
  from Cons.prems(1) obtain u where cu: "check_attribute reg x v = Inr u"
    and rest: "fold_err (check_attribute reg) attrs u = Inr v'"
    by (auto split: sum.splits)
  from check_attribute_log[OF cu] obtain fs1 where
    fs1: "\<forall>e c. check_attribute reg x (v\<lparr>errors := e, errorCount := c\<rparr>)
                 = Inr (v\<lparr>errors := e @ fs1, errorCount := c + length fs1\<rparr>)" by blast
  have u: "u = v\<lparr>errors := errors v @ fs1, errorCount := errorCount v + length fs1\<rparr>"
    using fs1[rule_format, where e = "errors v" and c = "errorCount v"] cu by (simp add: log_same)
  show ?case
  proof (cases "a = x")
    case True
    with fs1 show ?thesis by blast
  next
    case False
    with Cons.prems(2) have "a \<in> set attrs" by simp
    from Cons.IH[OF rest this] obtain e c w where
      "check_attribute reg a (u\<lparr>errors := e, errorCount := c\<rparr>) = Inr w" by blast
    then have "check_attribute reg a (v\<lparr>errors := e, errorCount := c\<rparr>) = Inr w"
      by (simp add: u)
    then show ?thesis by blast
  qed
qed

text \<open>
  C7. Let an attribute have the rules \<open>required|min:5\<close> and be absent from the input,
  let stop-on-error be on for all attributes, and let \<open>required\<close> be an implicit rule
  that fails on the absent value. Then the round of \<open>check\<close> for that attribute, whatever
  was recorded before, records exactly one failure, the one of \<open>required\<close> with its
  rendered message, and stops there: \<open>min\<close> is not run. And a run of \<open>check\<close> that
  returns has recorded exactly one failure for that attribute and returns \<open>false\<close>.
\<close>

theorem stop_after_required:
  assumes rs: "rules_at v attribute
                 = [\<lparr>name = ''required'', rvalue = Own JUndef\<rparr>, \<lparr>name = ''min'', rvalue = Own (JStr ''5'')\<rparr>]"
    and listed: "attribute \<in> set (map fst (rules v))" "distinct (map fst (rules v))"
    and absent: "objectPath (input v) attribute = Inr JUndef"
    and stop: "stopOnAttributes v = StopBool True"
    and implicit: "isImplicit reg ''required''"
    and fails: "\<not> validate reg ''required'' JUndef JUndef (JStr attribute)"
  shows "(\<forall>msg e c.
            render (fill reg) (messages v) (getRule reg ''required'' attribute JUndef) = Inr msg \<longrightarrow>
            check_attribute reg attribute (v\<lparr>errors := e, errorCount := c\<rparr>)
              = Inr (v\<lparr>errors := e @ [(attribute, msg)], errorCount := c + 1\<rparr>)) \<and>
         (\<forall>b v'. check reg v = Inr (b, v') \<longrightarrow>
           (\<exists>fs msg. errors v' = errors v @ fs \<and>
              filter (\<lambda>f. fst f = attribute) fs = [(attribute, msg)] \<and>
              render (fill reg) (messages v) (getRule reg ''required'' attribute JUndef) = Inr msg \<and>
              \<not> b))"
proof -
  have nosome: "\<not> hasRule v attribute [''sometimes'']"
    using rs by (simp add: hasRule_def)
  have valid: "isValidatable reg ''required'' JUndef"
    using implicit by (simp add: isValidatable_def)
  let ?rule = "getRule reg ''required'' attribute JUndef"
  have attr: "rule_attribute ?rule = attribute" by (simp add: getRule_def)
  have stops: "\<And>e c. shouldStopValidating (v\<lparr>errors := e, errorCount := c\<rparr>) attribute False"
    using stop by (simp add: shouldStopValidating_def)
  have one: "\<And>e c. check_attribute reg attribute (v\<lparr>errors := e, errorCount := c\<rparr>)
       = (case render (fill reg) (messages v) ?rule of
            Inl err \<Rightarrow> Inl err
          | Inr msg \<Rightarrow> Inr (v\<lparr>errors := e @ [(attribute, msg)], errorCount := c + 1\<rparr>))"
    using rs absent nosome valid fails stops attr
    by (simp add: check_attribute_def skipped_def Let_def addFailure_log split: sum.splits)
  show ?thesis
  proof (intro conjI allI impI)
    fix msg e c
    assume "render (fill reg) (messages v) ?rule = Inr msg"
    with one[where e = e and c = c]
    show "check_attribute reg attribute (v\<lparr>errors := e, errorCount := c\<rparr>)
              = Inr (v\<lparr>errors := e @ [(attribute, msg)], errorCount := c + 1\<rparr>)"
      by simp
  next
    fix b v'
    assume run: "check reg v = Inr (b, v')"
    from run obtain u where fo: "fold_err (check_attribute reg) (map fst (rules v)) v = Inr u"
      by (cases "fold_err (check_attribute reg) (map fst (rules v)) v") (simp_all add: check_def)
    with run have b: "b = (errorCount u = 0)" and v': "v' = u"
      by (auto simp: check_def)
    from check_fold_reaches[OF fo listed(1)] obtain e c w where
      "check_attribute reg attribute (v\<lparr>errors := e, errorCount := c\<rparr>) = Inr w" by blast
    with one[where e = e and c = c] obtain msg where msg: "render (fill reg) (messages v) ?rule = Inr msg"
      by (cases "render (fill reg) (messages v) ?rule") simp_all
    have fa: "\<forall>e c. check_attribute reg attribute (v\<lparr>errors := e, errorCount := c\<rparr>)
         = Inr (v\<lparr>errors := e @ [(attribute, msg)], errorCount := c + length [(attribute, msg)]\<rparr>)"
      using one msg by simp
    have fa_attr: "\<forall>f\<in>set [(attribute, msg)]. fst f = attribute" by simp
    from check_fold_log[OF fo listed(2) fa fa_attr] listed(1) obtain fs where
      fs: "\<forall>e c. fold_err (check_attribute reg) (map fst (rules v)) (v\<lparr>errors := e, errorCount := c\<rparr>)
                   = Inr (v\<lparr>errors := e @ fs, errorCount := c + length fs\<rparr>)"
        "filter (\<lambda>f. fst f = attribute) fs = [(attribute, msg)]" by auto
    have "fold_err (check_attribute reg) (map fst (rules v)) v
        = Inr (v\<lparr>errors := errors v @ fs, errorCount := errorCount v + length fs\<rparr>)"
      using fs(1)[rule_format, where e = "errors v" and c = "errorCount v"] by (simp only: log_same)
    with fo have u: "u = v\<lparr>errors := errors v @ fs, errorCount := errorCount v + length fs\<rparr>"
      by simp
    have "fs \<noteq> []" using fs(2) by auto
    then have "\<not> b" using b u by simp
    moreover have "errors v' = errors v @ fs" using v' u by simp
    ultimately show "\<exists>fs msg. errors v' = errors v @ fs \<and>
              filter (\<lambda>f. fst f = attribute) fs = [(attribute, msg)] \<and>
              render (fill reg) (messages v) ?rule = Inr msg \<and> \<not> b"
      using fs(2) msg by blast
  qed
qed

lemma check_age_strict:
  "check strict_catalog age_required_min
     = Inr (False, age_required_min\<lparr>errors := [(''age'', JStr ''D'')], errorCount := 1\<rparr>)"
  by code_simp

lemma check_age_strict_without_stop:
  "check strict_catalog (age_required_min\<lparr>stopOnAttributes := StopUndefined\<rparr>)
     = Inr (False, age_required_min\<lparr>stopOnAttributes := StopUndefined,
                     errors := [(''age'', JStr ''D''), (''age'', JStr ''D'')], errorCount := 2\<rparr>)"
  by code_simp

theorem stop_after_required_witness:
  "check_attribute strict_catalog ''age'' age_required_min
     = Inr (age_required_min\<lparr>errors := [(''age'', JStr ''D'')], errorCount := 1\<rparr>) \<and>
   (\<exists>fs msg. errors (age_required_min\<lparr>errors := [(''age'', JStr ''D'')], errorCount := 1\<rparr>)
                = errors age_required_min @ fs \<and>
            filter (\<lambda>f. fst f = ''age'') fs = [(''age'', msg)] \<and>
            render (fill strict_catalog) (messages age_required_min)
              (getRule strict_catalog ''required'' ''age'' JUndef) = Inr msg \<and>
            \<not> False) \<and>
   isValidatable strict_catalog ''min'' JUndef \<and>
   \<not> validate strict_catalog ''min'' JUndef (JStr ''5'') (JStr ''age'') \<and>
   map_sum id (errors \<circ> snd) (check strict_catalog (age_required_min\<lparr>stopOnAttributes := StopUndefined\<rparr>))
     = Inr [(''age'', JStr ''D''), (''age'', JStr ''D'')]"
proof -
  have p1: "rules_at age_required_min ''age''
      = [\<lparr>name = ''required'', rvalue = Own JUndef\<rparr>, \<lparr>name = ''min'', rvalue = Own (JStr ''5'')\<rparr>]"
    by (simp add: rules_at_def age_required_min_def)
  have p2: "''age'' \<in> set (map fst (rules age_required_min))" by (simp add: age_required_min_def)
  have p3: "distinct (map fst (rules age_required_min))" by (simp add: age_required_min_def)
  have p4: "objectPath (input age_required_min) ''age'' = Inr JUndef"
    by code_simp
  have p5: "stopOnAttributes age_required_min = StopBool True" by (simp add: age_required_min_def)
  have p6: "isImplicit strict_catalog ''required''" by (simp add: strict_catalog_def)
  have p7: "\<not> validate strict_catalog ''required'' JUndef JUndef (JStr ''age'')"
    by (simp add: strict_catalog_def sample_catalog_def)
  note main = stop_after_required[where reg = strict_catalog and v = age_required_min
      and attribute = "''age''", OF p1 p2 p3 p4 p5 p6 p7]
  have m: "messages age_required_min = messages (sample_validator (JObj [(''name'', JStr ''x'')]) [])"
    by (simp add: age_required_min_def)
  have f: "fill strict_catalog = fill sample_catalog" by (simp add: strict_catalog_def)
  have r: "render (fill strict_catalog) (messages age_required_min)
             (getRule strict_catalog ''required'' ''age'' JUndef) = Inr (JStr ''D'')"
    by (simp only: m f render_sample) (simp add: getRule_def strict_catalog_def sample_catalog_def)
  have same: "age_required_min\<lparr>errors := [], errorCount := 0\<rparr> = age_required_min"
    by (simp add: age_required_min_def sample_validator_def)
  from main[THEN conjunct1, rule_format, OF r, where e = "[]" and c = 0]
  have first: "check_attribute strict_catalog ''age'' age_required_min
     = Inr (age_required_min\<lparr>errors := [(''age'', JStr ''D'')], errorCount := 1\<rparr>)"
    by (simp add: same)
  from main[THEN conjunct2, rule_format, OF check_age_strict]
  have second: "\<exists>fs msg. errors (age_required_min\<lparr>errors := [(''age'', JStr ''D'')], errorCount := 1\<rparr>)
                = errors age_required_min @ fs \<and>
            filter (\<lambda>f. fst f = ''age'') fs = [(''age'', msg)] \<and>
            render (fill strict_catalog) (messages age_required_min)
              (getRule strict_catalog ''required'' ''age'' JUndef) = Inr msg \<and>
            \<not> False" .
  have third: "isValidatable strict_catalog ''min'' JUndef"
    by (simp add: isValidatable_def strict_catalog_def)
  have fourth: "\<not> validate strict_catalog ''min'' JUndef (JStr ''5'') (JStr ''age'')"
    by (simp add: strict_catalog_def sample_catalog_def)
  have fifth: "map_sum id (errors \<circ> snd) (check strict_catalog (age_required_min\<lparr>stopOnAttributes := StopUndefined\<rparr>))
     = Inr [(''age'', JStr ''D''), (''age'', JStr ''D'')]"
    by (simp add: check_age_strict_without_stop)
  from first second third fourth fifth show ?thesis by (intro conjI)
qed

subsection \<open>A callback selects the asynchronous engine\<close>

lemma checkAsync_named_required:
  "checkAsync sample_catalog named_required (Fn ''done'') (Val JUndef)
     = Inr \<lparr>coordinator = \<lparr>registered = [], resolvedCount = 1, dispatchComplete = True,
                            allPassed = False, fired = True\<rparr>,
            owner = named_required\<lparr>errors := [(''name'', JStr ''D'')], errorCount := 1\<rparr>,
            onPasses = Fn ''done'', onFails = Noop, calls = [], resolvedAllCalls = [False]\<rparr>"
  by code_simp

text \<open>
  C10. With a function as callback, \<open>passes\<close> and \<open>fails\<close> run \<open>checkAsync\<close> and
  return \<open>undefined\<close>, whether or not the rules hold an asynchronous rule; a boolean is
  returned only when the callback is not a function and no asynchronous rule was parsed,
  and it is then the result of \<open>check\<close>.
\<close>

theorem callback_routes_async:
  "(is_function callback \<longrightarrow>
      passes reg v callback
        = (case checkAsync reg v callback (Val JUndef) of
             Inl e \<Rightarrow> Inl e
           | Inr run \<Rightarrow> Inr (JUndef, Asynchronous run)) \<and>
      fails reg v callback
        = (case checkAsync reg v Noop callback of
             Inl e \<Rightarrow> Inl e
           | Inr run \<Rightarrow> Inr (JUndef, Asynchronous run))) \<and>
   (\<forall>b e. (passes reg v callback = Inr (JBool b, e) \<or> fails reg v callback = Inr (JBool b, e))
      \<longrightarrow> \<not> is_function callback \<and> \<not> hasAsync v \<and> (\<exists>v'. e = Synchronous v'))"
proof (intro conjI impI allI)
  assume "is_function callback"
  then show "passes reg v callback
        = (case checkAsync reg v callback (Val JUndef) of
             Inl e \<Rightarrow> Inl e
           | Inr run \<Rightarrow> Inr (JUndef, Asynchronous run))"
    by (simp add: passes_def guard_checkAsync_def)
next
  assume "is_function callback"
  then show "fails reg v callback
        = (case checkAsync reg v Noop callback of
             Inl e \<Rightarrow> Inl e
           | Inr run \<Rightarrow> Inr (JUndef, Asynchronous run))"
    by (simp add: fails_def guard_checkAsync_def)
next
  fix b e
  assume "passes reg v callback = Inr (JBool b, e) \<or> fails reg v callback = Inr (JBool b, e)"
  then show "\<not> is_function callback"
    by (auto simp: passes_def fails_def guard_checkAsync_def Let_def split: sum.splits if_splits)
next
  fix b e
  assume "passes reg v callback = Inr (JBool b, e) \<or> fails reg v callback = Inr (JBool b, e)"
  then show "\<not> hasAsync v"
    by (auto simp: passes_def fails_def guard_checkAsync_def Let_def split: sum.splits if_splits)
next
  fix b e
  assume "passes reg v callback = Inr (JBool b, e) \<or> fails reg v callback = Inr (JBool b, e)"
  then show "\<exists>v'. e = Synchronous v'"
    by (auto simp: passes_def fails_def guard_checkAsync_def Let_def split: sum.splits if_splits)
qed

theorem callback_routes_async_witness:
  "passes sample_catalog named_required (Fn ''done'')
     = Inr (JUndef, Asynchronous
         \<lparr>coordinator = \<lparr>registered = [], resolvedCount = 1, dispatchComplete = True,
                            allPassed = False, fired = True\<rparr>,
            owner = named_required\<lparr>errors := [(''name'', JStr ''D'')], errorCount := 1\<rparr>,
            onPasses = Fn ''done'', onFails = Noop, calls = [], resolvedAllCalls = [False]\<rparr>) \<and>
   passes sample_catalog named_required (Val JUndef)
     = Inr (JBool False, Synchronous
         (named_required\<lparr>errors := [(''name'', JStr ''D'')], errorCount := 1\<rparr>))"
proof -
  have f: "is_function (Fn ''done'')" by simp
  have "passes sample_catalog named_required (Fn ''done'')
        = (case checkAsync sample_catalog named_required (Fn ''done'') (Val JUndef) of
             Inl e \<Rightarrow> Inl e
           | Inr run \<Rightarrow> Inr (JUndef, Asynchronous run))"
    using callback_routes_async[of "Fn ''done''" sample_catalog named_required] f by blast
  then have first: "passes sample_catalog named_required (Fn ''done'')
     = Inr (JUndef, Asynchronous
         \<lparr>coordinator = \<lparr>registered = [], resolvedCount = 1, dispatchComplete = True,
                            allPassed = False, fired = True\<rparr>,
            owner = named_required\<lparr>errors := [(''name'', JStr ''D'')], errorCount := 1\<rparr>,
            onPasses = Fn ''done'', onFails = Noop, calls = [], resolvedAllCalls = [False]\<rparr>)"
    by (simp add: checkAsync_named_required)
  have "named_required\<lparr>errors := [], errorCount := 0\<rparr> = named_required"
    by (simp add: named_required_def sample_validator_def)
  with check_named_required[where e = "[]" and c = 0]
  have "check sample_catalog named_required
     = Inr (False, named_required\<lparr>errors := [(''name'', JStr ''D'')], errorCount := 1\<rparr>)"
    by simp
  moreover have "\<not> hasAsync named_required" by (simp add: named_required_def sample_validator_def)
  ultimately have second: "passes sample_catalog named_required (Val JUndef)
     = Inr (JBool False, Synchronous
         (named_required\<lparr>errors := [(''name'', JStr ''D'')], errorCount := 1\<rparr>))"
    by (simp add: passes_def guard_checkAsync_def)
  from first second show ?thesis by simp
qed

section \<open>Properties of the AsyncCoordinator\<close>

subsection \<open>The coordinator on a schedule\<close>

lemma aggregate_calls_append:
  "aggregate_calls (xs @ ys) = aggregate_calls xs @ aggregate_calls ys"
  by (induction xs rule: aggregate_calls.induct) simp_all

lemma all_resolved:
  assumes "distinct resolved" and "set resolved \<subseteq> {..<issued}" and "length resolved = issued"
  shows "set resolved = {..<issued}"
proof -
  have "card (set resolved) = issued" using assms(1,3) by (simp add: distinct_card)
  then have "card (set resolved) = card {..<issued}" by simp
  with assms(2) show ?thesis by (simp add: card_subset_eq)
qed

lemma schedule_done:
  assumes "schedule issued resolved True evs" and "distinct resolved"
    and "set resolved \<subseteq> {..<issued}" and "length resolved = issued"
  shows "evs = []"
proof (cases evs)
  case Nil
  then show ?thesis .
next
  case (Cons ev rest)
  have full: "set resolved = {..<issued}" using assms(2-4) by (rule all_resolved)
  show ?thesis
  proof (cases ev)
    case (Register r)
    with Cons assms(1) show ?thesis by simp
  next
    case (Resolve t b)
    with Cons assms(1) have "t < issued" "t \<notin> set resolved" by simp_all
    with full show ?thesis by auto
  next
    case MarkDispatchComplete
    with Cons assms(1) show ?thesis by simp
  qed
qed

lemma register_tracks:
  assumes "tracks issued resolved False ok st"
  shows "\<exists>st'. apply_event (Register ruleRef) st = Inr st' \<and> tracks (Suc issued) resolved False ok st'"
proof -
  obtain effects s where st: "st = (effects, s)" by (cases st)
  let ?s' = "s\<lparr>registered := registered s @ [(issued, ruleRef)]\<rparr>"
  from assms st have t: "\<not> fired s" "length (registered s) + resolvedCount s = issued"
    by (simp_all add: tracks_def)
  then have ap: "apply_event (Register ruleRef) st = Inr (effects, ?s')"
    by (simp add: st register_def)
  have "issued \<notin> set resolved" using assms by (auto simp: tracks_def)
  then have "tracks (Suc issued) resolved False ok (effects, ?s')"
    using assms st by (auto simp: tracks_def lessThan_Suc)
  with ap show ?thesis by blast
qed

lemma length_filter_distinct:
  "distinct (map fst xs) \<Longrightarrow> t \<in> fst ` set xs \<Longrightarrow>
   Suc (length (filter (\<lambda>entry. fst entry \<noteq> t) xs)) = length xs"
proof (induction xs)
  case Nil
  then show ?case by simp
next
  case (Cons x xs)
  show ?case
  proof (cases "fst x = t")
    case True
    with Cons.prems(1) have "t \<notin> fst ` set xs" by auto
    then have "filter (\<lambda>entry. fst entry \<noteq> t) xs = xs" by (auto simp: filter_id_conv)
    with True show ?thesis by simp
  next
    case False
    with Cons show ?thesis by auto
  qed
qed

lemma resolve_tracks:
  assumes tr: "tracks issued resolved marked ok st"
    and t: "token < issued" "token \<notin> set resolved"
  shows "\<exists>st'. apply_event (Resolve token passed) st = Inr st' \<and>
           (if marked \<and> Suc (length resolved) = issued
            then finished (ok \<and> passed) st'
            else tracks issued (token # resolved) marked (ok \<and> passed) st')"
proof -
  obtain effects s where st: "st = (effects, s)" by (cases st)
  from tr st have nf: "\<not> fired s" and ag: "aggregate_calls effects = []"
    and dc: "dispatchComplete s = marked" and ap: "allPassed s = ok"
    and rc: "resolvedCount s = length resolved"
    and dr: "distinct resolved" and sub: "set resolved \<subseteq> {..<issued}"
    and dk: "distinct (map fst (registered s))"
    and keys: "set (map fst (registered s)) = {..<issued} - set resolved"
    and len: "length (registered s) + length resolved = issued"
    by (simp_all add: tracks_def)
  from t keys have mem: "token \<in> fst ` set (registered s)" by auto
  then obtain ruleRef where look: "map_of (registered s) token = Some ruleRef"
    by (metis map_of_eq_None_iff not_Some_eq)
  let ?rest = "filter (\<lambda>entry. fst entry \<noteq> token) (registered s)"
  let ?s1 = "s\<lparr>registered := ?rest, resolvedCount := resolvedCount s + 1,
                allPassed := (allPassed s \<and> passed)\<rparr>"
  have lrest: "Suc (length ?rest) = length (registered s)"
    using dk mem by (rule length_filter_distinct)
  have krest: "set (map fst ?rest) = {..<issued} - set (token # resolved)"
    using keys by auto
  have drest: "distinct (map fst ?rest)" using dk by (simp add: distinct_map_filter)
  have "(length ?rest = 0) = (Suc (length resolved) = issued)"
    using lrest len by arith
  then have empty: "(?rest = []) = (Suc (length resolved) = issued)"
    by (simp only: length_0_conv)
  show ?thesis
  proof (cases "marked \<and> Suc (length resolved) = issued")
    case True
    then have fire: "fire_when_done ?s1 = ([ResolvedAll (ok \<and> passed)], ?s1\<lparr>fired := True\<rparr>)"
      using empty dc ap by (simp add: fire_when_done_def)
    have "apply_event (Resolve token passed) st
        = Inr (effects @ (if passed then [] else [FailedOne ruleRef]) @ [ResolvedAll (ok \<and> passed)],
               ?s1\<lparr>fired := True\<rparr>)"
      using nf look fire by (simp add: st resolve_def)
    moreover have "finished (ok \<and> passed)
        (effects @ (if passed then [] else [FailedOne ruleRef]) @ [ResolvedAll (ok \<and> passed)],
               ?s1\<lparr>fired := True\<rparr>)"
      using ag by (simp add: finished_def aggregate_calls_append)
    ultimately show ?thesis by (simp only: if_P[OF True]) blast
  next
    case False
    then have nofire: "fire_when_done ?s1 = ([], ?s1)"
      using empty dc by (auto simp: fire_when_done_def)
    have "apply_event (Resolve token passed) st
        = Inr (effects @ (if passed then [] else [FailedOne ruleRef]), ?s1)"
      using nf look nofire by (simp add: st resolve_def)
    moreover have "tracks issued (token # resolved) marked (ok \<and> passed)
        (effects @ (if passed then [] else [FailedOne ruleRef]), ?s1)"
      using nf ag dc ap rc dr sub t drest krest lrest len
      by (auto simp: tracks_def aggregate_calls_append)
    ultimately show ?thesis by (simp only: if_not_P[OF False]) blast
  qed
qed

lemma mark_tracks:
  assumes tr: "tracks issued resolved False ok st"
  shows "\<exists>st'. apply_event MarkDispatchComplete st = Inr st' \<and>
           (if length resolved = issued then finished ok st'
            else tracks issued resolved True ok st')"
proof -
  obtain effects s where st: "st = (effects, s)" by (cases st)
  from tr st have nf: "\<not> fired s" and ag: "aggregate_calls effects = []"
    and ap: "allPassed s = ok"
    and len: "length (registered s) + length resolved = issued"
    by (simp_all add: tracks_def)
  have empty: "(registered s = []) = (length resolved = issued)" using len by auto
  show ?thesis
  proof (cases "length resolved = issued")
    case True
    then have "apply_event MarkDispatchComplete st
        = Inr (effects @ [ResolvedAll ok], s\<lparr>dispatchComplete := True, fired := True\<rparr>)"
      using nf empty ap by (simp add: st markDispatchComplete_def fire_when_done_def)
    moreover have "finished ok (effects @ [ResolvedAll ok], s\<lparr>dispatchComplete := True, fired := True\<rparr>)"
      using ag by (simp add: finished_def aggregate_calls_append)
    ultimately show ?thesis by (simp only: if_P[OF True]) blast
  next
    case False
    then have "apply_event MarkDispatchComplete st = Inr (effects, s\<lparr>dispatchComplete := True\<rparr>)"
      using nf empty by (simp add: st markDispatchComplete_def fire_when_done_def)
    moreover have "tracks issued resolved True ok (effects, s\<lparr>dispatchComplete := True\<rparr>)"
      using tr st by (simp add: tracks_def)
    ultimately show ?thesis by (simp only: if_not_P[OF False]) blast
  qed
qed

lemma tracks_not_fired:
  "tracks issued resolved marked ok st \<Longrightarrow> \<not> fired (snd st) \<and> aggregate_calls (fst st) = []"
  by (simp add: tracks_def)

lemma prefix_step:
  assumes here: "\<not> fired (snd st) \<and> aggregate_calls (fst st) = []"
    and step: "apply_event ev st = Inr st1"
    and later: "\<forall>k<length evs. \<exists>st'. fold_err apply_event (take k evs) st1 = Inr st' \<and>
                  \<not> fired (snd st') \<and> aggregate_calls (fst st') = []"
  shows "\<forall>k<length (ev # evs). \<exists>st'. fold_err apply_event (take k (ev # evs)) st = Inr st' \<and>
                  \<not> fired (snd st') \<and> aggregate_calls (fst st') = []"
proof (intro allI impI)
  fix k assume k: "k < length (ev # evs)"
  show "\<exists>st'. fold_err apply_event (take k (ev # evs)) st = Inr st' \<and>
                  \<not> fired (snd st') \<and> aggregate_calls (fst st') = []"
  proof (cases k)
    case 0
    with here show ?thesis by simp
  next
    case (Suc k')
    with k have "k' < length evs" by simp
    with later obtain st' where "fold_err apply_event (take k' evs) st1 = Inr st'"
      "\<not> fired (snd st')" "aggregate_calls (fst st') = []" by blast
    with Suc step show ?thesis by simp
  qed
qed

lemma schedule_runs:
  assumes "tracks issued resolved marked ok st"
    and "\<not> (marked \<and> length resolved = issued)"
    and "schedule issued resolved marked evs"
  shows "(\<exists>st'. fold_err apply_event evs st = Inr st' \<and> finished (ok \<and> outcomes_pass evs) st') \<and>
         (\<forall>k<length evs. \<exists>st'. fold_err apply_event (take k evs) st = Inr st' \<and>
                  \<not> fired (snd st') \<and> aggregate_calls (fst st') = [])"
  using assms
proof (induction evs arbitrary: issued resolved marked ok st)
  case Nil
  then show ?case by simp
next
  case (Cons ev evs)
  note here = tracks_not_fired[OF Cons.prems(1)]
  show ?case
  proof (cases ev)
    case (Register ruleRef)
    with Cons.prems(3) have m: "\<not> marked" and sch: "schedule (Suc issued) resolved marked evs"
      by auto
    from Cons.prems(1) m have "tracks issued resolved False ok st" by simp
    from register_tracks[OF this, of ruleRef] obtain st1 where
      step: "apply_event (Register ruleRef) st = Inr st1"
      and tr: "tracks (Suc issued) resolved marked ok st1" using m by auto
    have nd: "\<not> (marked \<and> length resolved = Suc issued)" using m by simp
    from Cons.IH[OF tr nd sch] have
      fin: "\<exists>st'. fold_err apply_event evs st1 = Inr st' \<and> finished (ok \<and> outcomes_pass evs) st'"
      and pre: "\<forall>k<length evs. \<exists>st'. fold_err apply_event (take k evs) st1 = Inr st' \<and>
                  \<not> fired (snd st') \<and> aggregate_calls (fst st') = []" by blast+
    from fin step Register have
      "\<exists>st'. fold_err apply_event (ev # evs) st = Inr st' \<and> finished (ok \<and> outcomes_pass (ev # evs)) st'"
      by simp
    moreover from prefix_step[OF here _ pre, of ev] step Register have
      "\<forall>k<length (ev # evs). \<exists>st'. fold_err apply_event (take k (ev # evs)) st = Inr st' \<and>
                  \<not> fired (snd st') \<and> aggregate_calls (fst st') = []" by simp
    ultimately show ?thesis by blast
  next
    case (Resolve token passed)
    with Cons.prems(3) have t: "token < issued" "token \<notin> set resolved"
      and sch: "schedule issued (token # resolved) marked evs" by simp_all
    from resolve_tracks[OF Cons.prems(1) t, of passed] obtain st1 where
      step: "apply_event (Resolve token passed) st = Inr st1"
      and alt: "if marked \<and> Suc (length resolved) = issued
            then finished (ok \<and> passed) st1
            else tracks issued (token # resolved) marked (ok \<and> passed) st1" by blast
    show ?thesis
    proof (cases "marked \<and> Suc (length resolved) = issued")
      case True
      with alt have fin: "finished (ok \<and> passed) st1" by simp
      have "distinct (token # resolved)" "set (token # resolved) \<subseteq> {..<issued}"
        using Cons.prems(1) t by (auto simp: tracks_def)
      with sch True have "evs = []" by (intro schedule_done[of issued "token # resolved"]) auto
      with fin step Resolve here show ?thesis by simp
    next
      case False
      with alt have tr: "tracks issued (token # resolved) marked (ok \<and> passed) st1" by simp
      have nd: "\<not> (marked \<and> length (token # resolved) = issued)" using False by simp
      from Cons.IH[OF tr nd sch] have
        fin: "\<exists>st'. fold_err apply_event evs st1 = Inr st' \<and>
                finished ((ok \<and> passed) \<and> outcomes_pass evs) st'"
        and pre: "\<forall>k<length evs. \<exists>st'. fold_err apply_event (take k evs) st1 = Inr st' \<and>
                  \<not> fired (snd st') \<and> aggregate_calls (fst st') = []" by blast+
      from fin step Resolve have
        "\<exists>st'. fold_err apply_event (ev # evs) st = Inr st' \<and> finished (ok \<and> outcomes_pass (ev # evs)) st'"
        by (simp add: conj_assoc)
      moreover from prefix_step[OF here _ pre, of ev] step Resolve have
        "\<forall>k<length (ev # evs). \<exists>st'. fold_err apply_event (take k (ev # evs)) st = Inr st' \<and>
                  \<not> fired (snd st') \<and> aggregate_calls (fst st') = []" by simp
      ultimately show ?thesis by blast
    qed
  next
    case MarkDispatchComplete
    with Cons.prems(3) have m: "\<not> marked" and sch: "schedule issued resolved True evs"
      by auto
    from Cons.prems(1) m have tr0: "tracks issued resolved False ok st" by simp
    from mark_tracks[OF tr0] obtain st1 where
      step: "apply_event MarkDispatchComplete st = Inr st1"
      and alt: "if length resolved = issued then finished ok st1
            else tracks issued resolved True ok st1" by blast
    show ?thesis
    proof (cases "length resolved = issued")
      case True
      with alt have fin: "finished ok st1" by simp
      have "distinct resolved" "set resolved \<subseteq> {..<issued}"
        using Cons.prems(1) by (auto simp: tracks_def)
      with sch True have "evs = []" by (intro schedule_done[of issued resolved]) auto
      with fin step MarkDispatchComplete here show ?thesis by simp
    next
      case False
      with alt have tr: "tracks issued resolved True ok st1" by simp
      have nd: "\<not> (True \<and> length resolved = issued)" using False by simp
      from Cons.IH[OF tr nd sch] have
        fin: "\<exists>st'. fold_err apply_event evs st1 = Inr st' \<and> finished (ok \<and> outcomes_pass evs) st'"
        and pre: "\<forall>k<length evs. \<exists>st'. fold_err apply_event (take k evs) st1 = Inr st' \<and>
                  \<not> fired (snd st') \<and> aggregate_calls (fst st') = []" by blast+
      from fin step MarkDispatchComplete have
        "\<exists>st'. fold_err apply_event (ev # evs) st = Inr st' \<and> finished (ok \<and> outcomes_pass (ev # evs)) st'"
        by simp
      moreover from prefix_step[OF here _ pre, of ev] step MarkDispatchComplete have
        "\<forall>k<length (ev # evs). \<exists>st'. fold_err apply_event (take k (ev # evs)) st = Inr st' \<and>
                  \<not> fired (snd st') \<and> aggregate_calls (fst st') = []" by simp
      ultimately show ?thesis by blast
    qed
  qed
qed

lemma coordinator_fires_once:
  assumes "schedule 0 [] False evs"
  shows "(\<exists>effects s. run_events evs = Inr (effects, s) \<and>
            aggregate_calls effects = [outcomes_pass evs] \<and> fired s) \<and>
         (\<forall>k<length evs. \<exists>effects s. run_events (take k evs) = Inr (effects, s) \<and>
            aggregate_calls effects = [] \<and> \<not> fired s)"
proof -
  have tr: "tracks 0 [] False True ([], new_AsyncRunState)"
    by (simp add: tracks_def new_AsyncRunState_def)
  have nd: "\<not> (False \<and> length ([] :: nat list) = 0)" by simp
  from schedule_runs[OF tr nd assms] show ?thesis
    by (simp add: run_events_def finished_def) blast
qed

subsection \<open>The coordinator under \<open>checkAsync\<close>\<close>

lemma apply_effects_calls:
  "fold_err (apply_effect reg) effects run = Inr run' \<Longrightarrow>
   coordinator run' = coordinator run \<and>
   resolvedAllCalls run' = resolvedAllCalls run @ aggregate_calls effects"
proof (induction effects arbitrary: run)
  case Nil
  then show ?case by simp
next
  case (Cons eff effects)
  from Cons.prems obtain run1 where e1: "apply_effect reg eff run = Inr run1"
    and rest: "fold_err (apply_effect reg) effects run1 = Inr run'"
    by (auto split: sum.splits)
  have "coordinator run1 = coordinator run \<and>
        resolvedAllCalls run1 = resolvedAllCalls run @ aggregate_calls [eff]"
  proof (cases eff)
    case (FailedOne rule)
    with e1 show ?thesis by (auto split: sum.splits)
  next
    case (ResolvedAll passed)
    with e1 show ?thesis
      by (cases "if passed then onPasses run else onFails run") (auto split: if_splits)
  qed
  with Cons.IH[OF rest] show ?case
    by (cases eff) simp_all
qed

lemma resolve_result:
  assumes "\<not> fired c" and "token \<in> fst ` set (registered c)"
  shows "\<exists>effects c'. resolve token passed c = Inr (effects, c') \<and>
           registered c' = filter (\<lambda>entry. fst entry \<noteq> token) (registered c) \<and>
           dispatchComplete c' = dispatchComplete c \<and>
           resolvedCount c' = Suc (resolvedCount c) \<and>
           (if filter (\<lambda>entry. fst entry \<noteq> token) (registered c) = [] \<and> dispatchComplete c
            then fired c' \<and> length (aggregate_calls effects) = 1
            else \<not> fired c' \<and> aggregate_calls effects = [])"
proof -
  from assms(2) obtain ruleRef where look: "map_of (registered c) token = Some ruleRef"
    by (metis map_of_eq_None_iff not_Some_eq)
  show ?thesis
  proof (cases "filter (\<lambda>entry. fst entry \<noteq> token) (registered c) = [] \<and> dispatchComplete c")
    case True
    with assms(1) look show ?thesis
      by (simp add: resolve_def fire_when_done_def aggregate_calls_append)
  next
    case False
    with assms(1) look show ?thesis
      by (auto simp: resolve_def fire_when_done_def aggregate_calls_append)
  qed
qed

lemma resolve_token_dispatching:
  assumes d: "\<not> fired (coordinator run)" "\<not> dispatchComplete (coordinator run)"
      "resolvedAllCalls run = []" "distinct (map fst (registered (coordinator run)))"
      "\<forall>t\<in>fst ` set (registered (coordinator run)).
         t < length (registered (coordinator run)) + resolvedCount (coordinator run)"
    and mem: "token \<in> fst ` set (registered (coordinator run))"
    and res: "resolve_token reg (token, passed) run = Inr run'"
  shows "dispatching run'"
proof -
  from resolve_result[OF d(1) mem, of passed] d(2) obtain effects c' where
    r: "resolve token passed (coordinator run) = Inr (effects, c')"
    and reg': "registered c' = filter (\<lambda>entry. fst entry \<noteq> token) (registered (coordinator run))"
    and dc: "\<not> dispatchComplete c'" and rc: "resolvedCount c' = Suc (resolvedCount (coordinator run))"
    and nf: "\<not> fired c'" and ag: "aggregate_calls effects = []"
    by auto
  from res r have "fold_err (apply_effect reg) effects (run\<lparr>coordinator := c'\<rparr>) = Inr run'"
    by (simp add: resolve_token_def)
  from apply_effects_calls[OF this] ag d(3)
  have c: "coordinator run' = c'" and calls: "resolvedAllCalls run' = []" by simp_all
  have len: "Suc (length (registered c')) = length (registered (coordinator run))"
    unfolding reg' using d(4) mem by (rule length_filter_distinct)
  have "distinct (map fst (registered c'))" unfolding reg' using d(4) by (simp add: distinct_map_filter)
  moreover have "\<forall>t\<in>fst ` set (registered c'). t < length (registered c') + resolvedCount c'"
    using d(5) len rc unfolding reg' by auto
  ultimately show ?thesis using c calls dc nf by (simp add: dispatching_def)
qed

lemma validateRule_dispatching:
  assumes "dispatching run" and "validateRule reg inputValue ruleOptions attribute run = Inr run'"
  shows "dispatching run'"
proof -
  let ?c = "coordinator run"
  let ?tok = "length (registered ?c) + resolvedCount ?c"
  let ?rule = "getRule reg (name ruleOptions) attribute inputValue"
  let ?c1 = "?c\<lparr>registered := registered ?c @ [(?tok, ?rule)]\<rparr>"
  let ?run1 = "run\<lparr>coordinator := ?c1\<rparr>"
  from assms(1) have nf: "\<not> fired ?c" by (simp add: dispatching_def)
  then have regd: "register ?rule ?c = Inr (?tok, ?c1)" by (simp add: register_def Let_def)
  have fresh: "?tok \<notin> fst ` set (registered ?c)" using assms(1) by (auto simp: dispatching_def)
  have d1: "\<not> fired (coordinator ?run1)" "\<not> dispatchComplete (coordinator ?run1)"
      "resolvedAllCalls ?run1 = []" "distinct (map fst (registered (coordinator ?run1)))"
      "\<forall>t\<in>fst ` set (registered (coordinator ?run1)).
         t < length (registered (coordinator ?run1)) + resolvedCount (coordinator ?run1)"
    using assms(1) fresh by (auto simp: dispatching_def)
  show ?thesis
  proof (cases "if isAsync reg (name ruleOptions)
                 then completesNow reg (name ruleOptions) inputValue
                        (param_value (ruleArrays (owner run)) (rvalue ruleOptions)) (JStr attribute)
                 else Some (validate reg (name ruleOptions) inputValue
                        (param_value (ruleArrays (owner run)) (rvalue ruleOptions)) (JStr attribute))")
    case None
    with assms(2) regd have "run' = ?run1" by (simp add: validateRule_def)
    with d1 show ?thesis by (simp add: dispatching_def)
  next
    case (Some passed)
    with assms(2) regd have "resolve_token reg (?tok, passed) ?run1 = Inr run'"
      by (simp add: validateRule_def)
    moreover have "?tok \<in> fst ` set (registered (coordinator ?run1))" by simp
    ultimately show ?thesis using resolve_token_dispatching[OF d1] by blast
  qed
qed

lemma dispatch_rules_dispatching:
  "dispatching run \<Longrightarrow> dispatch_rules reg attribute inputValue rs run = Inr run'
   \<Longrightarrow> dispatching run'"
proof (induction rs arbitrary: run)
  case Nil
  then show ?case by simp
next
  case (Cons ruleOptions rest)
  show ?case
  proof (cases "isValidatable reg (name ruleOptions) inputValue")
    case False
    with Cons show ?thesis by simp
  next
    case True
    with Cons.prems(2) obtain run1 where
      v: "validateRule reg inputValue ruleOptions attribute run = Inr run1"
      and rest: "dispatch_rules reg attribute inputValue rest run1 = Inr run'"
      by (auto split: sum.splits)
    from validateRule_dispatching[OF Cons.prems(1) v] rest show ?thesis by (rule Cons.IH)
  qed
qed

lemma dispatch_attribute_dispatching:
  "dispatching run \<Longrightarrow> dispatch_attribute reg attribute run = Inr run' \<Longrightarrow> dispatching run'"
  by (auto simp: dispatch_attribute_def split: sum.splits bool.splits
      dest: dispatch_rules_dispatching)

lemma prefix_delivered:
  assumes here: "resolvedAllCalls run = []"
    and step: "resolve_token reg completion run = Inr run1"
    and later: "\<forall>k<length rest. \<exists>r. deliver reg (take k rest) run1 = Inr r \<and> resolvedAllCalls r = []"
  shows "\<forall>k<length (completion # rest).
           \<exists>r. deliver reg (take k (completion # rest)) run = Inr r \<and> resolvedAllCalls r = []"
proof (intro allI impI)
  fix k assume k: "k < length (completion # rest)"
  show "\<exists>r. deliver reg (take k (completion # rest)) run = Inr r \<and> resolvedAllCalls r = []"
  proof (cases k)
    case 0
    with here show ?thesis by (simp add: deliver_def)
  next
    case (Suc k')
    with k have "k' < length rest" by simp
    with later obtain r where "deliver reg (take k' rest) run1 = Inr r" "resolvedAllCalls r = []"
      by blast
    with Suc step show ?thesis by (simp add: deliver_def)
  qed
qed

lemma deliver_waiting:
  assumes "waiting run" and "distinct (map fst completions)"
    and "set (map fst completions) = set (map fst (registered (coordinator run)))"
    and "deliver reg completions run = Inr run'"
  shows "length (resolvedAllCalls run') = 1 \<and>
         (\<forall>k<length completions.
            \<exists>r. deliver reg (take k completions) run = Inr r \<and> resolvedAllCalls r = [])"
  using assms
proof (induction completions arbitrary: run)
  case Nil
  then show ?case by (simp add: waiting_def)
next
  case (Cons completion rest)
  obtain token passed where cp: "completion = (token, passed)" by (cases completion)
  let ?c = "coordinator run"
  from Cons.prems(1) have nf: "\<not> fired ?c" and dc: "dispatchComplete ?c"
    and calls: "resolvedAllCalls run = []" and dk: "distinct (map fst (registered ?c))"
    by (simp_all add: waiting_def)
  from Cons.prems(3) cp have mem: "token \<in> fst ` set (registered ?c)" by auto
  from Cons.prems(4) obtain run1 where
    step: "resolve_token reg completion run = Inr run1"
    and rest: "deliver reg rest run1 = Inr run'"
    by (auto simp: deliver_def split: sum.splits)
  let ?left = "filter (\<lambda>entry. fst entry \<noteq> token) (registered ?c)"
  from resolve_result[OF nf mem, of passed] dc obtain effects c' where
    r: "resolve token passed ?c = Inr (effects, c')"
    and reg': "registered c' = ?left"
    and dc': "dispatchComplete c'"
    and alt: "if ?left = [] then fired c' \<and> length (aggregate_calls effects) = 1
            else \<not> fired c' \<and> aggregate_calls effects = []"
    by auto
  from step r cp have "fold_err (apply_effect reg) effects (run\<lparr>coordinator := c'\<rparr>) = Inr run1"
    by (simp add: resolve_token_def)
  from apply_effects_calls[OF this] calls
  have c1: "coordinator run1 = c'" and calls1: "resolvedAllCalls run1 = aggregate_calls effects"
    by simp_all
  have "fst ` set ?left = fst ` set (registered ?c) - {token}" by force
  moreover have "fst ` set rest = fst ` set (registered ?c) - {token}"
    using Cons.prems(2,3) cp by auto
  ultimately have keys: "set (map fst ?left) = set (map fst rest)" by simp
  show ?case
  proof (cases "?left = []")
    case True
    with keys have "rest = []" by simp
    with rest have "run' = run1" by (simp add: deliver_def)
    with True alt calls1 have "length (resolvedAllCalls run') = 1" by simp
    moreover have "\<forall>k<length (completion # rest).
           \<exists>r. deliver reg (take k (completion # rest)) run = Inr r \<and> resolvedAllCalls r = []"
      using calls \<open>rest = []\<close> by (simp add: deliver_def)
    ultimately show ?thesis by blast
  next
    case False
    with alt calls1 have w: "waiting run1"
      using c1 dc' reg' dk by (simp add: waiting_def distinct_map_filter)
    have d: "distinct (map fst rest)" using Cons.prems(2) by simp
    have k: "set (map fst rest) = set (map fst (registered (coordinator run1)))"
      using keys c1 reg' by simp
    from Cons.IH[OF w d k rest] have
      fin: "length (resolvedAllCalls run') = 1"
      and pre: "\<forall>k<length rest. \<exists>r. deliver reg (take k rest) run1 = Inr r \<and> resolvedAllCalls r = []"
      by blast+
    from prefix_delivered[OF calls step pre] fin show ?thesis by blast
  qed
qed

lemma checkAsync_fires_once:
  assumes "checkAsync reg v passes' fails' = Inr started"
    and "distinct (map fst completions)"
    and "set (map fst completions) = set (map fst (registered (coordinator started)))"
    and "deliver reg completions started = Inr run"
  shows "length (resolvedAllCalls run) = 1 \<and>
         (\<forall>k<length completions.
            \<exists>r. deliver reg (take k completions) started = Inr r \<and> resolvedAllCalls r = [])"
proof -
  let ?start = "\<lparr>coordinator = new_AsyncRunState, owner = v, onPasses = or_noop passes',
              onFails = or_noop fails', calls = [], resolvedAllCalls = []\<rparr>"
  from assms(1) obtain run1 where
    fo: "fold_err (dispatch_attribute reg) (map fst (rules v)) ?start = Inr run1"
    by (auto simp: checkAsync_def split: sum.splits)
  have "dispatching ?start" by (simp add: dispatching_def new_AsyncRunState_def)
  from fold_err_invariant[where P = dispatching, OF this fo]
  have d: "dispatching run1" using dispatch_attribute_dispatching by blast
  let ?c = "coordinator run1"
  from d have nf: "\<not> fired ?c" and calls1: "resolvedAllCalls run1 = []"
    and dk: "distinct (map fst (registered ?c))"
    by (simp_all add: dispatching_def)
  from assms(1) fo nf have
    ap: "fold_err (apply_effect reg) (fst (fire_when_done (?c\<lparr>dispatchComplete := True\<rparr>)))
           (run1\<lparr>coordinator := snd (fire_when_done (?c\<lparr>dispatchComplete := True\<rparr>))\<rparr>) = Inr started"
    by (simp add: checkAsync_def markDispatchComplete_def split: prod.splits)
  show ?thesis
  proof (cases "registered ?c = []")
    case True
    from apply_effects_calls[OF ap] True calls1 nf
    have c0: "registered (coordinator started) = []" and calls0: "length (resolvedAllCalls started) = 1"
      by (simp_all add: fire_when_done_def)
    with assms(3) have "completions = []" by simp
    with assms(4) calls0 show ?thesis by (simp add: deliver_def)
  next
    case False
    from apply_effects_calls[OF ap] False calls1 nf dk
    have "waiting started" by (simp add: fire_when_done_def waiting_def)
    from deliver_waiting[OF this assms(2,3,4)] show ?thesis .
  qed
qed

lemma call_fn_quiet:
  "is_function f \<Longrightarrow> \<exists>run'. call_fn f run = Inr run' \<and> owner run' = owner run \<and>
     onPasses run' = onPasses run \<and> onFails run' = onFails run"
  by (cases f) simp_all

lemma apply_effect_quiet:
  assumes "quiet reg run"
  shows "\<exists>run'. apply_effect reg eff run = Inr run' \<and> quiet reg run'"
proof (cases eff)
  case (FailedOne rule)
  from assms obtain msg where "render (fill reg) (messages (owner run)) rule = Inr msg"
    by (auto simp: quiet_def)
  with assms FailedOne show ?thesis by (simp add: addFailure_def quiet_def)
next
  case (ResolvedAll passed)
  let ?run1 = "run\<lparr>resolvedAllCalls := resolvedAllCalls run @ [passed]\<rparr>"
  have f: "is_function (if passed then onPasses ?run1 else onFails ?run1)"
    using assms by (simp add: quiet_def)
  from call_fn_quiet[OF f, of ?run1] assms ResolvedAll show ?thesis
    by (auto simp: quiet_def)
qed

lemma apply_effects_quiet:
  "quiet reg run \<Longrightarrow> \<exists>run'. fold_err (apply_effect reg) effects run = Inr run' \<and> quiet reg run'"
proof (induction effects arbitrary: run)
  case Nil
  then show ?case by simp
next
  case (Cons eff effects)
  from apply_effect_quiet[OF Cons.prems, of eff] obtain run1 where
    "apply_effect reg eff run = Inr run1" "quiet reg run1" by blast
  with Cons.IH[of run1] show ?case by simp
qed

lemma apply_effect_keeps_quiet:
  "quiet reg run \<Longrightarrow> apply_effect reg eff run = Inr run' \<Longrightarrow> quiet reg run'"
  using apply_effect_quiet[of reg run eff] by simp

lemma resolve_token_quiet:
  assumes "quiet reg run" and "resolve_token reg completion run = Inr run'"
  shows "quiet reg run'"
proof -
  from assms(2) obtain effects c where
    "fold_err (apply_effect reg) effects (run\<lparr>coordinator := c\<rparr>) = Inr run'"
    by (auto simp: resolve_token_def split: sum.splits)
  moreover have "quiet reg (run\<lparr>coordinator := c\<rparr>)" using assms(1) by (simp add: quiet_def)
  ultimately show ?thesis using apply_effects_quiet[of reg "run\<lparr>coordinator := c\<rparr>" effects] by simp
qed

lemma resolve_token_total:
  assumes "quiet reg run" and "\<not> fired (coordinator run)"
    and "fst completion \<in> fst ` set (registered (coordinator run))"
  shows "\<exists>run'. resolve_token reg completion run = Inr run'"
proof -
  from resolve_result[OF assms(2,3), of "snd completion"] obtain effects c' where
    r: "resolve (fst completion) (snd completion) (coordinator run) = Inr (effects, c')" by blast
  have "quiet reg (run\<lparr>coordinator := c'\<rparr>)" using assms(1) by (simp add: quiet_def)
  from apply_effects_quiet[OF this, of effects] r show ?thesis
    by (auto simp: resolve_token_def)
qed

lemma deliver_total:
  assumes "waiting run" and "quiet reg run" and "distinct (map fst completions)"
    and "set (map fst completions) = set (map fst (registered (coordinator run)))"
  shows "\<exists>run'. deliver reg completions run = Inr run'"
  using assms
proof (induction completions arbitrary: run)
  case Nil
  then show ?case by (simp add: deliver_def)
next
  case (Cons completion rest)
  obtain token passed where cp: "completion = (token, passed)" by (cases completion)
  let ?c = "coordinator run"
  from Cons.prems(1) have nf: "\<not> fired ?c" and dc: "dispatchComplete ?c"
    and calls: "resolvedAllCalls run = []" and dk: "distinct (map fst (registered ?c))"
    by (simp_all add: waiting_def)
  from Cons.prems(4) cp have mem: "token \<in> fst ` set (registered ?c)" by auto
  from resolve_token_total[OF Cons.prems(2) nf, of completion] mem cp obtain run1 where
    step: "resolve_token reg completion run = Inr run1" by auto
  have q1: "quiet reg run1" using Cons.prems(2) step by (rule resolve_token_quiet)
  let ?left = "filter (\<lambda>entry. fst entry \<noteq> token) (registered ?c)"
  from resolve_result[OF nf mem, of passed] dc obtain effects c' where
    r: "resolve token passed ?c = Inr (effects, c')"
    and reg': "registered c' = ?left"
    and dc': "dispatchComplete c'"
    and alt: "if ?left = [] then fired c' \<and> length (aggregate_calls effects) = 1
            else \<not> fired c' \<and> aggregate_calls effects = []"
    by auto
  from step r cp have "fold_err (apply_effect reg) effects (run\<lparr>coordinator := c'\<rparr>) = Inr run1"
    by (simp add: resolve_token_def)
  from apply_effects_calls[OF this] calls
  have c1: "coordinator run1 = c'" and calls1: "resolvedAllCalls run1 = aggregate_calls effects"
    by simp_all
  have "fst ` set ?left = fst ` set (registered ?c) - {token}" by force
  moreover have "fst ` set rest = fst ` set (registered ?c) - {token}"
    using Cons.prems(3,4) cp by auto
  ultimately have keys: "set (map fst ?left) = set (map fst rest)" by simp
  show ?case
  proof (cases "?left = []")
    case True
    with keys have "rest = []" by simp
    with step show ?thesis by (simp add: deliver_def)
  next
    case False
    with alt calls1 have w: "waiting run1"
      using c1 dc' reg' dk by (simp add: waiting_def distinct_map_filter)
    have d: "distinct (map fst rest)" using Cons.prems(3) by simp
    have k: "set (map fst rest) = set (map fst (registered (coordinator run1)))"
      using keys c1 reg' by simp
    from Cons.IH[OF w q1 d k] step show ?thesis by (simp add: deliver_def)
  qed
qed

lemma validateRule_quiet:
  assumes "quiet reg run" and "validateRule reg inputValue ruleOptions attribute run = Inr run'"
  shows "quiet reg run'"
proof -
  let ?rule = "getRule reg (name ruleOptions) attribute inputValue"
  from assms(2) obtain resolverIndex c where
    regd: "register ?rule (coordinator run) = Inr (resolverIndex, c)"
    by (cases "register ?rule (coordinator run)") (auto simp: validateRule_def)
  have q: "quiet reg (run\<lparr>coordinator := c\<rparr>)" using assms(1) by (simp add: quiet_def)
  show ?thesis
  proof (cases "if isAsync reg (name ruleOptions)
                 then completesNow reg (name ruleOptions) inputValue
                        (param_value (ruleArrays (owner run)) (rvalue ruleOptions)) (JStr attribute)
                 else Some (validate reg (name ruleOptions) inputValue
                        (param_value (ruleArrays (owner run)) (rvalue ruleOptions)) (JStr attribute))")
    case None
    with assms(2) regd have "run' = run\<lparr>coordinator := c\<rparr>" by (simp add: validateRule_def)
    with q show ?thesis by simp
  next
    case (Some passed)
    with assms(2) regd have
      "resolve_token reg (resolverIndex, passed) (run\<lparr>coordinator := c\<rparr>) = Inr run'"
      by (simp add: validateRule_def)
    with q show ?thesis by (rule resolve_token_quiet)
  qed
qed

lemma dispatch_rules_quiet:
  "quiet reg run \<Longrightarrow> dispatch_rules reg attribute inputValue rs run = Inr run' \<Longrightarrow> quiet reg run'"
proof (induction rs arbitrary: run)
  case Nil
  then show ?case by simp
next
  case (Cons ruleOptions rest)
  show ?case
  proof (cases "isValidatable reg (name ruleOptions) inputValue")
    case False
    with Cons show ?thesis by simp
  next
    case True
    with Cons.prems(2) obtain run1 where
      v: "validateRule reg inputValue ruleOptions attribute run = Inr run1"
      and rest: "dispatch_rules reg attribute inputValue rest run1 = Inr run'"
      by (auto split: sum.splits)
    from validateRule_quiet[OF Cons.prems(1) v] rest show ?thesis by (rule Cons.IH)
  qed
qed

lemma dispatch_attribute_quiet:
  "quiet reg run \<Longrightarrow> dispatch_attribute reg attribute run = Inr run' \<Longrightarrow> quiet reg run'"
  by (auto simp: dispatch_attribute_def split: sum.splits bool.splits dest: dispatch_rules_quiet)

lemma checkAsync_started:
  assumes "checkAsync reg v passes' fails' = Inr started"
  shows "(registered (coordinator started) = [] \<and> length (resolvedAllCalls started) = 1) \<or>
         waiting started"
proof -
  let ?start = "\<lparr>coordinator = new_AsyncRunState, owner = v, onPasses = or_noop passes',
              onFails = or_noop fails', calls = [], resolvedAllCalls = []\<rparr>"
  from assms obtain run1 where
    fo: "fold_err (dispatch_attribute reg) (map fst (rules v)) ?start = Inr run1"
    by (auto simp: checkAsync_def split: sum.splits)
  have "dispatching ?start" by (simp add: dispatching_def new_AsyncRunState_def)
  from fold_err_invariant[where P = dispatching, OF this fo]
  have d: "dispatching run1" using dispatch_attribute_dispatching by blast
  let ?c = "coordinator run1"
  from d have nf: "\<not> fired ?c" and calls1: "resolvedAllCalls run1 = []"
    and dk: "distinct (map fst (registered ?c))"
    by (simp_all add: dispatching_def)
  from assms fo nf have
    ap: "fold_err (apply_effect reg) (fst (fire_when_done (?c\<lparr>dispatchComplete := True\<rparr>)))
           (run1\<lparr>coordinator := snd (fire_when_done (?c\<lparr>dispatchComplete := True\<rparr>))\<rparr>) = Inr started"
    by (simp add: checkAsync_def markDispatchComplete_def split: prod.splits)
  show ?thesis
  proof (cases "registered ?c = []")
    case True
    from apply_effects_calls[OF ap] True calls1 nf
    show ?thesis by (simp add: fire_when_done_def)
  next
    case False
    from apply_effects_calls[OF ap] False calls1 nf dk
    show ?thesis by (simp add: fire_when_done_def waiting_def)
  qed
qed

lemma checkAsync_quiet:
  assumes "checkAsync reg v passes' fails' = Inr started"
    and "\<forall>rule. \<exists>msg. render (fill reg) (messages v) rule = Inr msg"
    and "is_function (or_noop passes')" and "is_function (or_noop fails')"
  shows "quiet reg started"
proof -
  let ?start = "\<lparr>coordinator = new_AsyncRunState, owner = v, onPasses = or_noop passes',
              onFails = or_noop fails', calls = [], resolvedAllCalls = []\<rparr>"
  from assms(1) obtain run1 effects c where
    fo: "fold_err (dispatch_attribute reg) (map fst (rules v)) ?start = Inr run1"
    and ap: "fold_err (apply_effect reg) effects (run1\<lparr>coordinator := c\<rparr>) = Inr started"
    by (auto simp: checkAsync_def split: sum.splits)
  have "quiet reg ?start" using assms(2-4) by (simp add: quiet_def)
  from fold_err_invariant[where P = "quiet reg", OF this fo]
  have "quiet reg run1" using dispatch_attribute_quiet by blast
  then have "quiet reg (run1\<lparr>coordinator := c\<rparr>)" by (simp add: quiet_def)
  from apply_effects_quiet[OF this, of effects] ap show ?thesis by simp
qed

lemma checkAsync_completes:
  assumes "checkAsync reg v passes' fails' = Inr started"
    and "\<forall>rule. \<exists>msg. render (fill reg) (messages v) rule = Inr msg"
    and "is_function (or_noop passes')" and "is_function (or_noop fails')"
    and "distinct (map fst completions)"
    and "set (map fst completions) = set (map fst (registered (coordinator started)))"
  shows "(\<exists>run. deliver reg completions started = Inr run \<and> length (resolvedAllCalls run) = 1) \<and>
         (\<forall>k<length completions.
            \<exists>r. deliver reg (take k completions) started = Inr r \<and> resolvedAllCalls r = [])"
proof -
  have q: "quiet reg started" using assms(1-4) by (rule checkAsync_quiet)
  have "\<exists>run. deliver reg completions started = Inr run"
  proof (cases "registered (coordinator started) = []")
    case True
    with assms(6) show ?thesis by (simp add: deliver_def)
  next
    case False
    with checkAsync_started[OF assms(1)] have "waiting started" by simp
    then show ?thesis using q assms(5,6) by (rule deliver_total)
  qed
  then obtain run where run: "deliver reg completions started = Inr run" by blast
  from checkAsync_fires_once[OF assms(1) assms(5) assms(6) run] run show ?thesis by blast
qed

lemma checkAsync_remote:
  "checkAsync sample_catalog remote_validator (Fn ''ok'') (Val JUndef)
     = Inr \<lparr>coordinator = \<lparr>registered = [(0, sample_rule)], resolvedCount = 0,
                            dispatchComplete = True, allPassed = True, fired = False\<rparr>,
            owner = remote_validator, onPasses = Fn ''ok'', onFails = Noop, calls = [],
            resolvedAllCalls = []\<rparr>"
  by code_simp

lemma deliver_remote:
  "deliver sample_catalog [(0, True)]
     \<lparr>coordinator = \<lparr>registered = [(0, sample_rule)], resolvedCount = 0,
                      dispatchComplete = True, allPassed = True, fired = False\<rparr>,
      owner = remote_validator, onPasses = Fn ''ok'', onFails = Noop, calls = [],
      resolvedAllCalls = []\<rparr>
   = Inr \<lparr>coordinator = \<lparr>registered = [], resolvedCount = 1,
                      dispatchComplete = True, allPassed = True, fired = True\<rparr>,
      owner = remote_validator, onPasses = Fn ''ok'', onFails = Noop, calls = [''ok''],
      resolvedAllCalls = [True]\<rparr>"
  by (simp add: deliver_def resolve_token_def resolve_def fire_when_done_def)

text \<open>
  C1. (1) On every schedule of the coordinator (the checks registered one by one, dispatch
  marked complete once after the last registration, every token resolved once at any
  time after it was issued, in any order and on either side of the dispatch-complete
  signal) the run raises no error, the aggregate callback is called exactly once, with
  the conjunction of the outcomes, and it has not been called after any proper part of
  the schedule: it is called by the last event, which is the last resolution or the
  dispatch-complete signal. (2) In the validator: after \<open>checkAsync\<close> returned, when
  the deferred completions arrive in any order, one for each pending token, and the
  callbacks cannot throw (the renderer gives a message for every rule, the completion
  callbacks are functions), every completion is accepted, and \<open>resolvedAll\<close> has been
  called exactly once at the end and not before the last completion.
\<close>

theorem aggregate_callback_once:
  "(schedule 0 [] False evs \<longrightarrow>
      (\<exists>effects s. run_events evs = Inr (effects, s) \<and>
         aggregate_calls effects = [outcomes_pass evs] \<and> fired s) \<and>
      (\<forall>k<length evs. \<exists>effects s. run_events (take k evs) = Inr (effects, s) \<and>
         aggregate_calls effects = [] \<and> \<not> fired s)) \<and>
   (checkAsync reg v passes' fails' = Inr started \<and>
    (\<forall>rule. \<exists>msg. render (fill reg) (messages v) rule = Inr msg) \<and>
    is_function (or_noop passes') \<and> is_function (or_noop fails') \<and>
    distinct (map fst completions) \<and>
    set (map fst completions) = set (map fst (registered (coordinator started))) \<longrightarrow>
      (\<exists>run. deliver reg completions started = Inr run \<and> length (resolvedAllCalls run) = 1) \<and>
      (\<forall>k<length completions.
         \<exists>r. deliver reg (take k completions) started = Inr r \<and> resolvedAllCalls r = []))"
  using coordinator_fires_once[of evs]
    checkAsync_completes[of reg v passes' fails' started completions]
  by blast

theorem aggregate_callback_once_witness:
  "(\<exists>effects s. run_events sample_schedule = Inr (effects, s) \<and>
      aggregate_calls effects = [False] \<and> fired s) \<and>
   (\<exists>effects s. run_events (take 4 sample_schedule) = Inr (effects, s) \<and>
      aggregate_calls effects = [] \<and> \<not> fired s) \<and>
   (\<exists>started run. checkAsync sample_catalog remote_validator (Fn ''ok'') (Val JUndef) = Inr started \<and>
      map fst (registered (coordinator started)) = [0] \<and>
      resolvedAllCalls started = [] \<and>
      deliver sample_catalog [(0, True)] started = Inr run \<and>
      length (resolvedAllCalls run) = 1 \<and> calls run = [''ok''])"
proof -
  have sch: "schedule 0 [] False sample_schedule" by (simp add: sample_schedule_def)
  have out: "outcomes_pass sample_schedule = False" by (simp add: sample_schedule_def)
  have len: "4 < length sample_schedule" by (simp add: sample_schedule_def)
  from aggregate_callback_once[of sample_schedule] sch out len
  have first: "\<exists>effects s. run_events sample_schedule = Inr (effects, s) \<and>
      aggregate_calls effects = [False] \<and> fired s"
    and second: "\<exists>effects s. run_events (take 4 sample_schedule) = Inr (effects, s) \<and>
      aggregate_calls effects = [] \<and> \<not> fired s"
    by auto
  let ?started = "\<lparr>coordinator = \<lparr>registered = [(0, sample_rule)], resolvedCount = 0,
                            dispatchComplete = True, allPassed = True, fired = False\<rparr>,
            owner = remote_validator, onPasses = Fn ''ok'', onFails = Noop, calls = [],
            resolvedAllCalls = []\<rparr>"
  let ?final = "\<lparr>coordinator = \<lparr>registered = [], resolvedCount = 1,
                      dispatchComplete = True, allPassed = True, fired = True\<rparr>,
      owner = remote_validator, onPasses = Fn ''ok'', onFails = Noop, calls = [''ok''],
      resolvedAllCalls = [True]\<rparr>"
  have "messages remote_validator = messages (sample_validator (JObj [(''name'', JStr ''x'')]) [])"
    by (simp add: remote_validator_def)
  then have quietly: "\<forall>rule. \<exists>msg. render (fill sample_catalog) (messages remote_validator) rule = Inr msg"
    by (simp add: render_sample)
  have "(\<exists>run. deliver sample_catalog [(0, True)] ?started = Inr run \<and>
            length (resolvedAllCalls run) = 1) \<and>
      (\<forall>k<length [(0::nat, True)].
         \<exists>r. deliver sample_catalog (take k [(0, True)]) ?started = Inr r \<and> resolvedAllCalls r = [])"
  proof (rule aggregate_callback_once[where reg = sample_catalog and v = remote_validator
      and passes' = "Fn ''ok''" and fails' = "Val JUndef" and started = ?started
      and completions = "[(0, True)]", THEN conjunct2, THEN mp])
    show "checkAsync sample_catalog remote_validator (Fn ''ok'') (Val JUndef) = Inr ?started \<and>
      (\<forall>rule. \<exists>msg. render (fill sample_catalog) (messages remote_validator) rule = Inr msg) \<and>
      is_function (or_noop (Fn ''ok'')) \<and> is_function (or_noop (Val JUndef)) \<and>
      distinct (map fst [(0::nat, True)]) \<and>
      set (map fst [(0::nat, True)]) = set (map fst (registered (coordinator ?started)))"
      using checkAsync_remote quietly by simp
  qed
  then obtain run where "deliver sample_catalog [(0, True)] ?started = Inr run"
    and one: "length (resolvedAllCalls run) = 1" by blast
  with deliver_remote have "run = ?final" by simp
  with one checkAsync_remote deliver_remote
  have third: "\<exists>started run. checkAsync sample_catalog remote_validator (Fn ''ok'') (Val JUndef) = Inr started \<and>
      map fst (registered (coordinator started)) = [0] \<and>
      resolvedAllCalls started = [] \<and>
      deliver sample_catalog [(0, True)] started = Inr run \<and>
      length (resolvedAllCalls run) = 1 \<and> calls run = [''ok'']"
    by (intro exI[of _ ?started] exI[of _ ?final]) simp
  from first second third show ?thesis by blast
qed

end
